theory Spec2Isabelle
  imports
    Main
    "HOL-Library.List_Lexorder"
    "HOL-Library.Product_Lexorder"
    "HOL-Library.Multiset"
    "HOL-Library.Sublist"
begin

section \<open>Strings as the crawler uses them\<close>

text \<open>
  JavaScript strings are modelled as \<^typ>\<open>string\<close>. Every string the crawler's URL code
  handles is a serialized URL or a part of one, so it is ASCII; the only other
  characters in the sources are the accented letters of some French search terms,
  which are written as single Latin-1 characters.
\<close>

definition upper_letters :: string where
  "upper_letters = ''ABCDEFGHIJKLMNOPQRSTUVWXYZ''"

definition lower_letters :: string where
  "lower_letters = ''abcdefghijklmnopqrstuvwxyz''"

definition digit_chars :: string where
  "digit_chars = ''0123456789''"

definition toLowerChar :: "char \<Rightarrow> char" where
  "toLowerChar c = (case map_of (zip upper_letters lower_letters) c of Some d \<Rightarrow> d | None \<Rightarrow> c)"

text \<open>\<^verbatim>\<open>String.prototype.toLowerCase\<close> on ASCII text.\<close>

definition toLowerCase :: "string \<Rightarrow> string" where
  "toLowerCase s = map toLowerChar s"

definition is_letter :: "char \<Rightarrow> bool" where
  "is_letter c = (c \<in> set lower_letters \<or> c \<in> set upper_letters)"

definition is_digit :: "char \<Rightarrow> bool" where
  "is_digit c = (c \<in> set digit_chars)"

definition is_alnum :: "char \<Rightarrow> bool" where
  "is_alnum c = (is_letter c \<or> is_digit c)"

text \<open>\<^verbatim>\<open>s.split(c)\<close> for a one-character separator: never the empty array.\<close>

fun split_on :: "char \<Rightarrow> string \<Rightarrow> string list" where
  "split_on c [] = [[]]"
| "split_on c (x # xs) =
     (if x = c then [] # split_on c xs
      else (case split_on c xs of [] \<Rightarrow> [[x]] | y # ys \<Rightarrow> (x # y) # ys))"

text \<open>\<^verbatim>\<open>parts.join(sep)\<close>.\<close>

fun join_with :: "string \<Rightarrow> string list \<Rightarrow> string" where
  "join_with sep [] = []"
| "join_with sep [x] = x"
| "join_with sep (x # y # ys) = x @ sep @ join_with sep (y # ys)"

text \<open>\<^verbatim>\<open>s.startsWith(p)\<close>.\<close>

fun startsWith :: "string \<Rightarrow> string \<Rightarrow> bool" where
  "startsWith [] s = True"
| "startsWith (p # ps) [] = False"
| "startsWith (p # ps) (c # cs) = (p = c \<and> startsWith ps cs)"

section \<open>Regular expressions\<close>

text \<open>
  The URL predicates are lists of JavaScript regular expressions applied with
  \<^verbatim>\<open>test\<close>. A regular expression is a term of the datatype \<open>regex\<close>; \<^verbatim>\<open>test\<close> asks whether
  some match exists anywhere in the string, which does not depend on the order in which a
  backtracking matcher tries the alternatives. A position is the previous character
  (none at the start) and the rest of the input, which is what \<^verbatim>\<open>^\<close>, \<^verbatim>\<open>$\<close> and
  \<^verbatim>\<open>\b\<close> look at.
\<close>

datatype regex =
    Lit string
  | Class string
  | NotClass string
  | Seq regex regex
  | Alt regex regex
  | Star regex
  | Bol
  | Eol
  | WordB

type_synonym pos = "char option \<times> string"

definition word_chars :: string where
  "word_chars = lower_letters @ upper_letters @ digit_chars @ ''_''"

definition is_word_char :: "char \<Rightarrow> bool" where
  "is_word_char c = (c \<in> set word_chars)"

text \<open>Character comparison, under the \<^verbatim>\<open>i\<close> flag when \<open>ic\<close> is set.\<close>

definition same_char :: "bool \<Rightarrow> char \<Rightarrow> char \<Rightarrow> bool" where
  "same_char ic c d = (if ic then toLowerChar c = toLowerChar d else c = d)"

definition in_class :: "bool \<Rightarrow> string \<Rightarrow> char \<Rightarrow> bool" where
  "in_class ic cs d = list_ex (\<lambda>c. same_char ic c d) cs"

fun lit_ends :: "bool \<Rightarrow> string \<Rightarrow> pos \<Rightarrow> pos list" where
  "lit_ends ic [] p = [p]"
| "lit_ends ic (c # cs) (prev, []) = []"
| "lit_ends ic (c # cs) (prev, d # ds) =
     (if same_char ic c d then lit_ends ic cs (Some d, ds) else [])"

fun class_ends :: "(char \<Rightarrow> bool) \<Rightarrow> pos \<Rightarrow> pos list" where
  "class_ends P (prev, []) = []"
| "class_ends P (prev, d # ds) = (if P d then [(Some d, ds)] else [])"

text \<open>
  Iteration of a starred body: an iteration that consumes nothing is cut off, as in
  JavaScript, so the length of the remaining input bounds the number of iterations.
\<close>

fun star_from :: "nat \<Rightarrow> (pos \<Rightarrow> pos list) \<Rightarrow> pos \<Rightarrow> pos list" where
  "star_from 0 f p = [p]"
| "star_from (Suc n) f p =
     p # concat (map (star_from n f) (filter (\<lambda>q. length (snd q) < length (snd p)) (f p)))"

definition at_word_boundary :: "pos \<Rightarrow> bool" where
  "at_word_boundary p =
     ((case fst p of None \<Rightarrow> False | Some c \<Rightarrow> is_word_char c)
      \<noteq> (case snd p of [] \<Rightarrow> False | d # ds \<Rightarrow> is_word_char d))"

text \<open>All positions at which a match of the expression starting at \<open>p\<close> can end.\<close>

primrec ends :: "regex \<Rightarrow> bool \<Rightarrow> pos \<Rightarrow> pos list" where
  "ends (Lit cs) ic p = lit_ends ic cs p"
| "ends (Class cs) ic p = class_ends (in_class ic cs) p"
| "ends (NotClass cs) ic p = class_ends (\<lambda>d. \<not> in_class ic cs d) p"
| "ends (Seq a b) ic p = concat (map (ends b ic) (ends a ic p))"
| "ends (Alt a b) ic p = ends a ic p @ ends b ic p"
| "ends (Star r) ic p = star_from (length (snd p)) (ends r ic) p"
| "ends Bol ic p = (if fst p = None then [p] else [])"
| "ends Eol ic p = (if snd p = [] then [p] else [])"
| "ends WordB ic p = (if at_word_boundary p then [p] else [])"

fun positions :: "char option \<Rightarrow> string \<Rightarrow> pos list" where
  "positions prev [] = [(prev, [])]"
| "positions prev (c # cs) = (prev, c # cs) # positions (Some c) cs"

text \<open>\<^verbatim>\<open>/r/.test(s)\<close> and \<^verbatim>\<open>/r/i.test(s)\<close>.\<close>

definition regex_test :: "bool \<Rightarrow> regex \<Rightarrow> string \<Rightarrow> bool" where
  "regex_test ic r s = list_ex (\<lambda>p. ends r ic p \<noteq> []) (positions None s)"

text \<open>Derived forms: \<^verbatim>\<open>ab...\<close>, \<^verbatim>\<open>(s1|s2|...)\<close>, \<^verbatim>\<open>r?\<close>, \<^verbatim>\<open>r+\<close>, \<^verbatim>\<open>r{n,}\<close>, \<^verbatim>\<open>.\<close>, \<^verbatim>\<open>\d\<close>, \<^verbatim>\<open>\w\<close>.\<close>

fun seqs :: "regex list \<Rightarrow> regex" where
  "seqs [] = Lit []"
| "seqs [r] = r"
| "seqs (r # rs) = Seq r (seqs rs)"

fun alts :: "string list \<Rightarrow> regex" where
  "alts [] = Class []"
| "alts [s] = Lit s"
| "alts (s # ss) = Alt (Lit s) (alts ss)"

definition Opt :: "regex \<Rightarrow> regex" where
  "Opt r = Alt r (Lit [])"

definition Plus :: "regex \<Rightarrow> regex" where
  "Plus r = Seq r (Star r)"

primrec AtLeast :: "nat \<Rightarrow> regex \<Rightarrow> regex" where
  "AtLeast 0 r = Star r"
| "AtLeast (Suc n) r = Seq r (AtLeast n r)"

definition Dot :: regex where
  "Dot = NotClass [CHR 0x0A, CHR 0x0D]"

definition Digit :: regex where
  "Digit = Class digit_chars"

definition WordChar :: regex where
  "WordChar = Class word_chars"

section \<open>The platform's URL objects\<close>

text \<open>
  \<^verbatim>\<open>new URL(s)\<close> is the platform's WHATWG URL parser, not code of the crawler. It is
  modelled for the URLs a shop crawl meets: absolute \<^verbatim>\<open>http\<close> and \<^verbatim>\<open>https\<close> URLs
  \<^verbatim>\<open>scheme://host/path?query#fragment\<close> with
  \<^item> a host of dot-separated non-empty labels of letters, digits and hyphens, no label
    starting with \<^verbatim>\<open>xn--\<close>, the last label starting with a letter (so neither an IP
    address nor a name that needs IDNA processing), without credentials or port;
  \<^item> a path of letters, digits and \<^verbatim>\<open>-._~!$&'()*+,;=:@/\<close>, without \<^verbatim>\<open>.\<close> or \<^verbatim>\<open>..\<close>
    segments;
  \<^item> a query of letters, digits and \<^verbatim>\<open>*-._=&\<close> in which no parameter value holds a
    \<^verbatim>\<open>=\<close> (the serializer of the parameters writes such a sign as a percent escape);
  \<^item> a fragment of path characters, \<^verbatim>\<open>?\<close> and \<^verbatim>\<open>#\<close>.
  On these the parser lower-cases scheme and host, turns an empty path into \<^verbatim>\<open>/\<close> and
  keeps the rest as it is; nothing needs percent-encoding or decoding. Every other
  string is rejected by the model (the real parser accepts more), so the results below
  speak about this class of URLs.
\<close>

record URL =
  scheme :: string
  hostname :: string
  pathname :: string
  query :: "string option"
  fragment :: "string option"

definition is_host_char :: "char \<Rightarrow> bool" where
  "is_host_char c = (is_alnum c \<or> c = CHR ''-'')"

definition is_path_char :: "char \<Rightarrow> bool" where
  "is_path_char c = (is_alnum c \<or> c \<in> set ''-._~!$&()*+,;=:@/'' \<or> c = CHR 0x27)"

definition is_query_char :: "char \<Rightarrow> bool" where
  "is_query_char c = (is_alnum c \<or> c \<in> set ''*-._=&'')"

definition is_fragment_char :: "char \<Rightarrow> bool" where
  "is_fragment_char c = (is_path_char c \<or> c = CHR ''?'' \<or> c = CHR ''#'')"

definition valid_label :: "string \<Rightarrow> bool" where
  "valid_label l = (l \<noteq> [] \<and> list_all is_host_char l \<and> \<not> startsWith ''xn--'' (toLowerCase l))"

definition valid_host :: "string \<Rightarrow> bool" where
  "valid_host h =
     (let labels = split_on (CHR ''.'') h
      in list_all valid_label labels \<and> is_letter (hd (last labels)))"

definition valid_path :: "string \<Rightarrow> bool" where
  "valid_path p =
     (list_all is_path_char p \<and>
      list_all (\<lambda>seg. seg \<noteq> ''.'' \<and> seg \<noteq> ''..'') (split_on (CHR ''/'') p))"

text \<open>A piece \<^verbatim>\<open>name=value\<close> of a query, cut at its first \<^verbatim>\<open>=\<close>.\<close>

definition split_pair :: "string \<Rightarrow> string \<times> string" where
  "split_pair s = (takeWhile (\<lambda>c. c \<noteq> CHR ''='') s, drop 1 (dropWhile (\<lambda>c. c \<noteq> CHR ''='') s))"

definition valid_query :: "string option \<Rightarrow> bool" where
  "valid_query q =
     (case q of
        None \<Rightarrow> True
      | Some s \<Rightarrow>
          list_all is_query_char s
          \<and> list_all (\<lambda>piece. CHR ''='' \<notin> set (snd (split_pair piece))) (split_on (CHR ''&'') s))"

definition valid_fragment :: "string option \<Rightarrow> bool" where
  "valid_fragment f = (case f of None \<Rightarrow> True | Some s \<Rightarrow> list_all is_fragment_char s)"

definition is_authority_end :: "char \<Rightarrow> bool" where
  "is_authority_end c = (c = CHR ''/'' \<or> c = CHR ''?'' \<or> c = CHR ''#'')"

definition is_path_end :: "char \<Rightarrow> bool" where
  "is_path_end c = (c = CHR ''?'' \<or> c = CHR ''#'')"

text \<open>\<^verbatim>\<open>new URL(s)\<close>: \<open>None\<close> is the \<^verbatim>\<open>TypeError\<close> the constructor throws.\<close>

definition URL_parse :: "string \<Rightarrow> URL option" where
  "URL_parse s =
     (let sch = takeWhile (\<lambda>c. c \<noteq> CHR '':'') s;
          r0 = dropWhile (\<lambda>c. c \<noteq> CHR '':'') s;
          r1 = drop 3 r0;
          auth = takeWhile (\<lambda>c. \<not> is_authority_end c) r1;
          r2 = dropWhile (\<lambda>c. \<not> is_authority_end c) r1;
          path = takeWhile (\<lambda>c. \<not> is_path_end c) r2;
          r3 = dropWhile (\<lambda>c. \<not> is_path_end c) r2;
          qry = (if startsWith ''?'' r3 then Some (takeWhile (\<lambda>c. c \<noteq> CHR ''#'') (tl r3))
                 else None);
          r4 = dropWhile (\<lambda>c. c \<noteq> CHR ''#'') r3;
          frag = (if startsWith ''#'' r4 then Some (tl r4) else None)
      in if startsWith ''://'' r0
            \<and> (toLowerCase sch = ''http'' \<or> toLowerCase sch = ''https'')
            \<and> valid_host auth \<and> valid_path path \<and> valid_query qry \<and> valid_fragment frag
         then Some \<lparr> scheme = toLowerCase sch, hostname = toLowerCase auth,
                     pathname = (if path = [] then ''/'' else path),
                     query = qry, fragment = frag \<rparr>
         else None)"

text \<open>\<^verbatim>\<open>url.href\<close> and \<^verbatim>\<open>url.toString()\<close>.\<close>

definition href :: "URL \<Rightarrow> string" where
  "href u =
     scheme u @ ''://'' @ hostname u @ pathname u
       @ (case query u of None \<Rightarrow> [] | Some q \<Rightarrow> CHR ''?'' # q)
       @ (case fragment u of None \<Rightarrow> [] | Some f \<Rightarrow> CHR ''#'' # f)"

text \<open>\<^verbatim>\<open>url.search\<close>.\<close>

definition search :: "URL \<Rightarrow> string" where
  "search u = (case query u of None \<Rightarrow> [] | Some q \<Rightarrow> if q = [] then [] else CHR ''?'' # q)"

text \<open>
  The setters \<^verbatim>\<open>url.hash = v\<close>, \<^verbatim>\<open>url.pathname = v\<close> and \<^verbatim>\<open>url.search = v\<close>, for values
  made of the characters above (the only ones the crawler passes): the empty hash or
  search removes the component, a path is made to start with a slash.
\<close>

definition set_hash :: "URL \<Rightarrow> string \<Rightarrow> URL" where
  "set_hash u v =
     u\<lparr>fragment := (if v = [] then None else Some (if startsWith ''#'' v then tl v else v))\<rparr>"

definition set_pathname :: "URL \<Rightarrow> string \<Rightarrow> URL" where
  "set_pathname u v = u\<lparr>pathname := (if startsWith ''/'' v then v else CHR ''/'' # v)\<rparr>"

definition set_search :: "URL \<Rightarrow> string \<Rightarrow> URL" where
  "set_search u v =
     u\<lparr>query := (if v = [] then None else Some (if startsWith ''?'' v then tl v else v))\<rparr>"

text \<open>
  \<^verbatim>\<open>url.searchParams.entries()\<close>: the query is cut at \<^verbatim>\<open>&\<close>, empty pieces are dropped,
  and each piece is cut at its first \<^verbatim>\<open>=\<close> by \<open>split_pair\<close>. The queries of the modelled
  class hold no \<^verbatim>\<open>+\<close> and no percent escape, so nothing is decoded.
\<close>

definition searchParams :: "URL \<Rightarrow> (string \<times> string) list" where
  "searchParams u =
     (case query u of None \<Rightarrow> []
      | Some q \<Rightarrow> map split_pair (filter (\<lambda>s. s \<noteq> []) (split_on (CHR ''&'') q)))"

text \<open>
  \<^verbatim>\<open>new URLSearchParams(pairs).toString()\<close>, the \<^verbatim>\<open>application/x-www-form-urlencoded\<close>
  serializer: in names and values it leaves letters, digits and \<^verbatim>\<open>*-._\<close> as they are,
  writes a space as \<^verbatim>\<open>+\<close> and every other character as the percent escape of its code.
\<close>

definition hex_digit :: "nat \<Rightarrow> char" where
  "hex_digit n = ''0123456789ABCDEF'' ! n"

definition percent_encode :: "char \<Rightarrow> string" where
  "percent_encode c =
     [CHR ''%'', hex_digit ((of_char c :: nat) div 16), hex_digit ((of_char c :: nat) mod 16)]"

definition urlencoded :: "string \<Rightarrow> string" where
  "urlencoded s =
     concat (map (\<lambda>c. if is_alnum c \<or> c \<in> set ''*-._'' then [c]
                       else if c = CHR '' '' then ''+''
                       else percent_encode c) s)"

definition URLSearchParams_toString :: "(string \<times> string) list \<Rightarrow> string" where
  "URLSearchParams_toString ps =
     join_with ''&'' (map (\<lambda>(k, v). urlencoded k @ ''='' @ urlencoded v) ps)"

text \<open>\<^verbatim>\<open>params.has(name)\<close>.\<close>

definition searchParams_has :: "URL \<Rightarrow> string \<Rightarrow> bool" where
  "searchParams_has u k = (k \<in> set (map fst (searchParams u)))"

text \<open>
  \<^verbatim>\<open>new URL(link, base)\<close>: an absolute link is parsed on its own; otherwise the link is
  resolved against the base, by its first characters. Links with \<^verbatim>\<open>.\<close> or \<^verbatim>\<open>..\<close>
  segments are outside the modelled class, like absolute links of other schemes.
\<close>

definition URL_resolve :: "string \<Rightarrow> string \<Rightarrow> URL option" where
  "URL_resolve link base =
     (case URL_parse link of
        Some u \<Rightarrow> Some u
      | None \<Rightarrow>
         (case URL_parse base of
            None \<Rightarrow> None
          | Some b \<Rightarrow>
              let origin = scheme b @ ''://'' @ hostname b;
                  dir = rev (dropWhile (\<lambda>c. c \<noteq> CHR ''/'') (rev (pathname b)));
                  first = takeWhile (\<lambda>c. \<not> is_authority_end c) link
              in if startsWith ''/'' link \<and> startsWith ''/'' (drop 1 link)
                   then URL_parse (scheme b @ '':'' @ link)
                 else if startsWith ''/'' link then URL_parse (origin @ link)
                 else if startsWith ''?'' link then URL_parse (origin @ pathname b @ link)
                 else if link = [] \<or> startsWith ''#'' link
                   then URL_parse (href (b\<lparr>fragment := None\<rparr>) @ link)
                 else if CHR '':'' \<in> set first then None
                 else URL_parse (origin @ dir @ link)))"

text \<open>
  \<^verbatim>\<open>a.localeCompare(b)\<close> is the platform's collation. Strings are compared by their
  collation keys: first the letters and digits regardless of case (punctuation before
  digits before letters), then, between strings that differ in case only, lower case
  before upper case.
\<close>

definition collation_order :: string where
  "collation_order = ''_-.*'' @ digit_chars @ lower_letters"

primrec index_of :: "'a \<Rightarrow> 'a list \<Rightarrow> nat" where
  "index_of x [] = 0"
| "index_of x (y # ys) = (if x = y then 0 else Suc (index_of x ys))"

definition collation_key :: "string \<Rightarrow> nat list \<times> nat list" where
  "collation_key s =
     (map (\<lambda>c. index_of (toLowerChar c) collation_order) s,
      map (\<lambda>c. if c \<in> set upper_letters then 1 else 0) s)"

definition localeCompare :: "string \<Rightarrow> string \<Rightarrow> int" where
  "localeCompare a b =
     (if collation_key a < collation_key b then - 1
      else if collation_key a = collation_key b then 0 else 1)"

section \<open>urlUtils.ts\<close>

datatype error = Error string

definition LANGUAGE_CODES :: "string list" where
  "LANGUAGE_CODES =
     [''en'', ''ar'', ''fr'', ''es'', ''de'', ''it'', ''ru'', ''zh'', ''ja'', ''ko'',
      ''nl'', ''pl'', ''pt'', ''tr'', ''vi'', ''th'', ''id'', ''ms'', ''hi'']"

definition removeLanguagePrefix :: "string \<Rightarrow> string" where
  "removeLanguagePrefix pathname' =
     (let parts = filter (\<lambda>s. s \<noteq> []) (split_on (CHR ''/'') pathname')
      in if length parts > 0 \<and> toLowerCase (hd parts) \<in> set LANGUAGE_CODES
         then ''/'' @ join_with ''/'' (tl parts)
         else pathname')"

text \<open>\<^verbatim>\<open>s.replace(/\/+$/, "")\<close>.\<close>

definition strip_trailing_slashes :: "string \<Rightarrow> string" where
  "strip_trailing_slashes s = rev (dropWhile (\<lambda>c. c = CHR ''/'') (rev s))"

text \<open>
  The array sort with the comparator \<^verbatim>\<open>([a], [b]) => a.localeCompare(b)\<close> is stable, so
  it is the stable sort by the collation key of the parameter name.
\<close>

definition normalizeUrl :: "string \<Rightarrow> error + string" where
  "normalizeUrl urlString =
     (case URL_parse urlString of
        None \<Rightarrow> Inl (Error (''Invalid URL: '' @ urlString))
      | Some url0 \<Rightarrow>
          let url1 = set_hash url0 [];
              url2 = set_pathname url1 (removeLanguagePrefix (pathname url1));
              url3 = set_pathname url2 (strip_trailing_slashes (pathname url2));
              sorted_params = sort_key (\<lambda>p. collation_key (fst p)) (searchParams url3);
              url4 = set_search url3 (URLSearchParams_toString sorted_params);
              normalized = toLowerCase (href url4)
          in Inr normalized)"

definition isSameDomain :: "string \<Rightarrow> string \<Rightarrow> bool" where
  "isSameDomain url1 url2 =
     (case (URL_parse url1, URL_parse url2) of
        (Some u1, Some u2) \<Rightarrow> hostname u1 = hostname u2
      | _ \<Rightarrow> False)"

definition isValidUrl :: "string \<Rightarrow> bool" where
  "isValidUrl url = (case URL_parse url of Some u \<Rightarrow> True | None \<Rightarrow> False)"

text \<open>A pattern is a regular expression with its \<^verbatim>\<open>i\<close> flag.\<close>

type_synonym pattern = "bool \<times> regex"

definition some_test :: "pattern list \<Rightarrow> string \<Rightarrow> bool" where
  "some_test patterns s = list_ex (\<lambda>(ic, r). regex_test ic r s) patterns"

definition resourcePatterns :: "pattern list" where
  "resourcePatterns =
     [(True, seqs [Lit ''.'',
                   alts [''js'', ''css'', ''png'', ''jpg'', ''jpeg'', ''gif'', ''ico'', ''svg'',
                         ''woff'', ''woff2'', ''ttf'', ''eot'', ''map'', ''webp''],
                   Opt (Seq (Lit ''?'') (Star Dot)), Eol]),
      (True, seqs [Lit ''/'',
                   alts [''static'', ''assets'', ''images'', ''img'', ''fonts'', ''css'', ''js''],
                   Lit ''/'']),
      (True, seqs [Lit ''/_next/'', alts [''static'', ''image'', ''data'', ''chunks'']]),
      (True, seqs [Lit ''.'', alts [''br'', ''gz'', ''zip'', ''rar'', ''7z'', ''tar'', ''bz2''], Eol]),
      (True, seqs [Lit ''/'', alts [''cdn-cgi'', ''__webpack'', ''webpack''], Lit ''/'']),
      (True, seqs [Lit ''?'',
                   alts [''q='', ''w='', ''h='', ''quality='', ''size='', ''width='', ''height='']])]"

definition isResourceUrl :: "string \<Rightarrow> bool" where
  "isResourceUrl u = some_test resourcePatterns u"

definition e_acute :: string where
  "e_acute = [CHR 0xE9]"

definition PRODUCT_TERMS :: "string list" where
  "PRODUCT_TERMS =
     [''product'', ''item'', ''sku'', ''prod'', ''buy'', ''detail'', ''purchase'', ''shop'',
      ''produit'', ''article'', ''achat'', ''d'' @ e_acute @ ''tail'', ''acheter'', ''boutique'',
      ''muntaj'', ''sila'', ''mahsul'', ''shira'', ''taswiq'']"

definition LISTING_TERMS :: "string list" where
  "LISTING_TERMS =
     [''category'', ''categories'', ''collection'', ''shop'', ''catalog'', ''department'',
      ''brand'', ''search'', ''browse'', ''all'', ''sale'', ''new'',
      ''cat'' @ e_acute @ ''gorie'', ''cat'' @ e_acute @ ''gories'', ''collection'', ''magasin'',
      ''catalogue'', ''d'' @ e_acute @ ''partement'', ''marque'', ''recherche'',
      ''nouveaut'' @ e_acute @ ''s'', ''promotion'',
      ''qism'', ''majmua'', ''mutjar'', ''tasnif'', ''almarqa'', ''bahth'']"

definition UTILITY_TERMS :: "string list" where
  "UTILITY_TERMS =
     [''login'', ''signup'', ''account'', ''cart'', ''checkout'', ''wishlist'', ''track'',
      ''connexion'', ''compte'', ''panier'', ''paiement'', ''suivi'',
      ''dakhil'', ''hisab'', ''sabat'', ''tawid'']"

definition slug_char :: regex where
  "slug_char = Class (word_chars @ ''-'')"

definition slash_or_end :: regex where
  "slash_or_end = Alt (Lit ''/'') Eol"

definition PRODUCT_PATTERNS :: "pattern list" where
  "PRODUCT_PATTERNS =
     [(True, Alt (Lit ''/p/'') (Alt (seqs [Lit ''/pro'', Opt (Lit ''d''), Lit ''/''])
                (Alt (Lit ''/item/'') (Lit ''/sku/'')))),
      (True, seqs [Lit ''/'', Plus slug_char, Lit ''-'', Plus Digit, Opt (Class lower_letters),
                   slash_or_end]),
      (True, seqs [Class ''&?'', alts [''pid'', ''product_id'', ''itemcode''], Lit ''='']),
      (True, alts [''_p_'', ''_prod_'', ''_item_'']),
      (True, seqs [Lit ''/'', alts PRODUCT_TERMS, WordB]),
      (True, seqs [Lit ''-'', alts PRODUCT_TERMS, Lit ''-'']),
      (True, Seq (Lit ''/'') (AtLeast 6 Digit))]"

definition LISTING_PATTERNS :: "pattern list" where
  "LISTING_PATTERNS =
     [(True, alts [''/c/'', ''/cat/'', ''/col/'', ''/browse/'']),
      (True, seqs [Class ''&?'', alts [''page'', ''offset'', ''sort'', ''filter''], Lit ''='']),
      (True, seqs [Lit ''/'', Plus slug_char, Lit ''/'', Plus slug_char, slash_or_end]),
      (True, seqs [Lit ''/'', alts LISTING_TERMS, WordB]),
      (True, seqs [Lit ''-'', alts LISTING_TERMS, Lit ''-'']),
      (True, seqs [Lit ''/'', Plus Digit, Lit ''-'', Plus Digit, slash_or_end])]"

definition productIndicators :: "pattern list" where
  "productIndicators =
     [(False, AtLeast 6 Digit),
      (True, seqs [AtLeast 2 (Class lower_letters), AtLeast 4 Digit, Opt (Class lower_letters)]),
      (True, alts [''_prod_'', ''_item_'']),
      (True, Seq (Lit ''-p-'') (Plus Digit))]"

definition listingIndicators :: "pattern list" where
  "listingIndicators =
     [(True, seqs [Bol, Lit ''pg-'', Plus Digit]),
      (True, Seq (Lit ''-c-'') (Plus Digit)),
      (True, Lit ''-cat-''),
      (True, Seq (Lit ''/all'') slash_or_end)]"

record likely =
  isLikely :: bool
  type :: string

text \<open>
  \<^verbatim>\<open>isLikelyProductOrListingUrl\<close>: the promise it returns is always fulfilled, so the
  model returns its value.
\<close>

definition isLikelyProductOrListingUrl :: "string \<Rightarrow> likely" where
  "isLikelyProductOrListingUrl u =
     (case URL_parse u of
        None \<Rightarrow> \<lparr>isLikely = False, type = ''other''\<rparr>
      | Some parsedUrl \<Rightarrow>
          let pathAndQuery = pathname parsedUrl @ search parsedUrl;
              cleanUrl = toLowerCase pathAndQuery
          in if isResourceUrl u then \<lparr>isLikely = False, type = ''other''\<rparr>
             else if some_test PRODUCT_PATTERNS cleanUrl then \<lparr>isLikely = True, type = ''product''\<rparr>
             else if some_test LISTING_PATTERNS cleanUrl then \<lparr>isLikely = True, type = ''listing''\<rparr>
             else
               let hasProductParams =
                     list_ex (searchParams_has parsedUrl) [''sku'', ''product_id'', ''itemid''];
                   hasListingParams =
                     list_ex (searchParams_has parsedUrl) [''category_id'', ''collection_id'', ''page'']
               in if hasProductParams then \<lparr>isLikely = True, type = ''product''\<rparr>
                  else if hasListingParams then \<lparr>isLikely = True, type = ''listing''\<rparr>
                  else
                    let segments = filter (\<lambda>s. s \<noteq> []) (split_on (CHR ''/'') (pathname parsedUrl));
                        lastSegment = (if segments = [] then [] else last segments)
                    in if some_test productIndicators lastSegment
                         then \<lparr>isLikely = True, type = ''product''\<rparr>
                       else if some_test listingIndicators lastSegment
                         then \<lparr>isLikely = True, type = ''listing''\<rparr>
                       else
                         let langCodes = [''en'', ''fr'', ''ar'', ''es'', ''de''];
                             isLocalizedPath = (length segments > 0 \<and> hd segments \<in> set langCodes);
                             contentSegments = (if isLocalizedPath then tl segments else segments);
                             pathString = join_with ''/'' contentSegments;
                             hasProductTerms = regex_test True (alts PRODUCT_TERMS) pathString;
                             hasListingTerms = regex_test True (alts LISTING_TERMS) pathString
                         in if length contentSegments \<ge> 2 \<and> hasProductTerms
                              then \<lparr>isLikely = True, type = ''product''\<rparr>
                            else if length contentSegments \<ge> 2 \<and> hasListingTerms
                              then \<lparr>isLikely = True, type = ''listing''\<rparr>
                            else if regex_test True (alts UTILITY_TERMS) cleanUrl
                              then \<lparr>isLikely = False, type = ''other''\<rparr>
                            else \<lparr>isLikely = False, type = ''other''\<rparr>)"

section \<open>crawler.ts\<close>

record ProductData =
  name :: string
  price :: string
  description :: string
  url :: string
  imageUrl :: "string option"

record CrawlResult =
  products :: "ProductData list"
  visitedUrls :: "string list"
  error :: "string option"

record PageAnalysis =
  pageType :: string
  product :: "ProductData option"
  productLinks :: "string list option"
  paginationLinks :: "string list option"
  categoryLinks :: "string list option"
  otherRelevantLinks :: "string list option"

subsection \<open>The browser and the language model\<close>

text \<open>
  What the headless browser and the language model answer is outside the crawler. A
  \<open>world\<close> fixes these answers for one run:
  \<^item> \<open>initBrowser_outcome\<close>: whether \<^verbatim>\<open>puppeteer.launch\<close> and the \<^verbatim>\<open>newPage\<close> calls of
    \<^verbatim>\<open>initBrowser\<close> succeed, or which of them throws;
  \<^item> \<open>close_outcome\<close>: the error, if any, that closing the pages and the browser throws;
  \<^item> \<open>goto\<close>: for a requested URL, either an error thrown while navigating, or the
    response (its status and final URL, both absent when there is no response object)
    with what reading the rendered page gives: an error (the wait for \<^verbatim>\<open>body\<close> timed
    out, say) or the markup and the \<^verbatim>\<open>href\<close> of every anchor;
  \<^item> \<open>model\<close>: the model's answer to the prompt built from the page URL, the truncated
    markup and the sample of links: the call throws, the text holds no JSON object, or
    the object parsed from it (a missing \<^verbatim>\<open>pageType\<close> is the empty string);
  \<^item> \<open>finish\<close>: for the version of the crawler that works on several URLs at once, the
    time at which the renderer and the classifier are done with a URL; the concurrent
    tasks of a batch resume in this order.
  The page pool only hands out the browser's pages; its bookkeeping is left out.
\<close>

datatype init = Ready | LaunchThrows error | NewPageThrows error

datatype navigation =
    GotoThrows error
  | Response "nat option" "string option" "error + string \<times> string list"

datatype reply = ModelThrows | NotJson | Json PageAnalysis

record world =
  initBrowser_outcome :: init
  close_outcome :: "error option"
  goto :: "string \<Rightarrow> navigation"
  model :: "string \<Rightarrow> string \<Rightarrow> string list \<Rightarrow> reply"
  finish :: "string \<Rightarrow> nat"

text \<open>The calls a run makes to the renderer and to the classifier, in order.\<close>

datatype call = Fetch string | Analyze string

subsection \<open>Helpers\<close>

definition getBaseDomain :: "string \<Rightarrow> string" where
  "getBaseDomain u = (case URL_parse u of Some parsedUrl \<Rightarrow> hostname parsedUrl | None \<Rightarrow> [])"

text \<open>
  \<^verbatim>\<open>fetchPage\<close>: \<open>Inl\<close> is the exception it throws, \<open>Inr None\<close> the \<^verbatim>\<open>null\<close> of a 404,
  otherwise the markup, the links and the normalized final URL.
\<close>

definition fetchPage :: "world \<Rightarrow> string \<Rightarrow> error + (string \<times> string list \<times> string) option" where
  "fetchPage w u =
     (case goto w u of
        GotoThrows e \<Rightarrow> Inl e
      | Response status response_url rendered \<Rightarrow>
          if status = Some 404 then Inr None
          else
            (case normalizeUrl (case response_url of None \<Rightarrow> u
                                | Some r \<Rightarrow> if r = [] then u else r) of
               Inl e \<Rightarrow> Inl e
             | Inr finalUrl \<Rightarrow>
                 (case rendered of
                    Inl e \<Rightarrow> Inl e
                  | Inr (html, hrefs) \<Rightarrow>
                      Inr (Some (html,
                                 filter (\<lambda>h. h \<noteq> [] \<and> \<not> startsWith ''javascript:'' h) hrefs,
                                 finalUrl)))))"

definition analyzePageWithGemini :: "world \<Rightarrow> string \<Rightarrow> string \<Rightarrow> string list \<Rightarrow> PageAnalysis" where
  "analyzePageWithGemini w html u allLinks =
     (let truncatedHtml = (if length html > 15000 then take 15000 html @ ''...'' else html);
          linksSample = take 100 allLinks
      in case model w u truncatedHtml linksSample of
           Json analysis \<Rightarrow>
             \<lparr> pageType = (if pageType analysis = [] then ''other'' else pageType analysis),
               product = product analysis,
               productLinks = Some (case productLinks analysis of None \<Rightarrow> [] | Some l \<Rightarrow> l),
               paginationLinks = Some (case paginationLinks analysis of None \<Rightarrow> [] | Some l \<Rightarrow> l),
               categoryLinks = Some (case categoryLinks analysis of None \<Rightarrow> [] | Some l \<Rightarrow> l),
               otherRelevantLinks =
                 Some (case otherRelevantLinks analysis of None \<Rightarrow> [] | Some l \<Rightarrow> l) \<rparr>
         | _ \<Rightarrow>
             \<lparr> pageType = ''other'', product = None, productLinks = None,
               paginationLinks = None, categoryLinks = None, otherRelevantLinks = None \<rparr>)"

text \<open>
  \<^verbatim>\<open>deduplicateProducts\<close>: the \<^verbatim>\<open>Map\<close> is an association list in insertion order;
  \<open>unique_insert\<close> is the loop body, \<^verbatim>\<open>values()\<close> the second components.
\<close>

definition unique_insert :: "ProductData \<Rightarrow> (string \<times> ProductData) list \<Rightarrow> (string \<times> ProductData) list" where
  "unique_insert p uniqueProducts =
     (if url p \<in> set (map fst uniqueProducts) then uniqueProducts
      else uniqueProducts @ [(url p, p)])"

definition deduplicateProducts :: "ProductData list \<Rightarrow> ProductData list" where
  "deduplicateProducts ps = map snd (fold unique_insert ps [])"

text \<open>\<^verbatim>\<open>normalizeUrl(new URL(link, baseUrl).href)\<close> inside a \<^verbatim>\<open>try\<close>: \<open>None\<close> when it throws.\<close>

definition resolve_normalized :: "string \<Rightarrow> string \<Rightarrow> string option" where
  "resolve_normalized link baseUrl =
     (case URL_resolve link baseUrl of
        None \<Rightarrow> None
      | Some r \<Rightarrow> (case normalizeUrl (href r) of Inl e \<Rightarrow> None | Inr n \<Rightarrow> Some n))"

subsection \<open>The crawl loop\<close>

text \<open>
  The local variables of \<^verbatim>\<open>crawlWebsite\<close>: \<open>visited\<close> is the set \<^verbatim>\<open>visitedUrls\<close> in
  insertion order, \<open>pending\<close> the array \<^verbatim>\<open>pendingUrls\<close>, \<open>collected\<close> the array
  \<^verbatim>\<open>products\<close>, \<open>seenProducts\<close> the set \<^verbatim>\<open>seenProductUrls\<close>; \<open>calls\<close> records the
  renderer and classifier calls made so far.
\<close>

record crawl_state =
  visited :: "string list"
  pending :: "string list"
  collected :: "ProductData list"
  seenProducts :: "string list"
  calls :: "call list"

text \<open>The link filter of the page's anchors (the \<^verbatim>\<open>links.map\<close> callback).\<close>

definition candidate_link :: "string \<Rightarrow> string \<Rightarrow> string \<Rightarrow> string option" where
  "candidate_link baseDomain baseUrl link =
     (case resolve_normalized link baseUrl of
        None \<Rightarrow> None
      | Some normalizedLink \<Rightarrow>
          if isResourceUrl normalizedLink then None
          else if getBaseDomain normalizedLink \<noteq> baseDomain then None
          else if isLikely (isLikelyProductOrListingUrl normalizedLink) then Some normalizedLink
          else None)"

text \<open>\<^verbatim>\<open>filteredLinks\<close>: the candidates that are new and not the current page.\<close>

definition filteredLinks_of :: "string \<Rightarrow> string \<Rightarrow> string \<Rightarrow> string list \<Rightarrow> string list \<Rightarrow> string list" where
  "filteredLinks_of baseDomain baseUrl currentUrl visitedUrls' links =
     concat (map (\<lambda>l. case candidate_link baseDomain baseUrl l of
                         None \<Rightarrow> []
                       | Some link \<Rightarrow>
                           if link \<notin> set visitedUrls' \<and> link \<noteq> currentUrl then [link] else [])
                 links)"

text \<open>The domain check of the classified links (the \<^verbatim>\<open>allRelevantLinks\<close> callback).\<close>

definition relevant_link :: "string \<Rightarrow> string \<Rightarrow> string \<Rightarrow> string option" where
  "relevant_link baseDomain baseUrl link =
     (case resolve_normalized link baseUrl of
        None \<Rightarrow> None
      | Some normalizedLink \<Rightarrow>
          if getBaseDomain normalizedLink = baseDomain then Some normalizedLink else None)"

definition links_or_empty :: "string list option \<Rightarrow> string list" where
  "links_or_empty ls = (case ls of None \<Rightarrow> [] | Some l \<Rightarrow> l)"

text \<open>\<^verbatim>\<open>allRelevantLinks\<close>: the four classified lists, resolved, kept on the domain and new.\<close>

definition allRelevantLinks_of :: "string \<Rightarrow> string \<Rightarrow> string list \<Rightarrow> PageAnalysis \<Rightarrow> string list" where
  "allRelevantLinks_of baseDomain baseUrl visitedUrls' pageAnalysis =
     concat (map (\<lambda>link. case relevant_link baseDomain baseUrl link of
                            None \<Rightarrow> []
                          | Some l \<Rightarrow> if l \<notin> set visitedUrls' then [l] else [])
                 (links_or_empty (productLinks pageAnalysis)
                  @ links_or_empty (paginationLinks pageAnalysis)
                  @ links_or_empty (categoryLinks pageAnalysis)
                  @ links_or_empty (otherRelevantLinks pageAnalysis)))"

text \<open>The body of the loop that marks links as visited and queues them.\<close>

definition enqueue :: "string \<Rightarrow> crawl_state \<Rightarrow> crawl_state" where
  "enqueue link st =
     (if link \<in> set (visited st) then st
      else st\<lparr>visited := visited st @ [link], pending := pending st @ [link]\<rparr>)"

text \<open>Recording the product of a product page, unless its URL was seen before.\<close>

definition add_product :: "ProductData \<Rightarrow> string \<Rightarrow> crawl_state \<Rightarrow> crawl_state" where
  "add_product p normalizedProductUrl st =
     (if normalizedProductUrl \<in> set (seenProducts st) then st
      else st\<lparr>collected := collected st @ [p\<lparr>url := normalizedProductUrl\<rparr>],
              seenProducts := seenProducts st @ [normalizedProductUrl]\<rparr>)"

text \<open>
  What follows the classification of a page: the product, then the links. When
  \<^verbatim>\<open>normalizeUrl(currentUrl)\<close> throws, the loop's \<^verbatim>\<open>catch\<close> takes over and nothing
  is added.
\<close>

definition integrate :: "string \<Rightarrow> string \<Rightarrow> string \<Rightarrow> PageAnalysis \<Rightarrow> crawl_state \<Rightarrow> crawl_state" where
  "integrate baseDomain baseUrl currentUrl pageAnalysis st =
     (let allRelevantLinks = allRelevantLinks_of baseDomain baseUrl (visited st) pageAnalysis
      in if pageType pageAnalysis = ''product'' \<and> product pageAnalysis \<noteq> None
         then (case normalizeUrl currentUrl of
                 Inl e \<Rightarrow> st
               | Inr normalizedProductUrl \<Rightarrow>
                   fold enqueue allRelevantLinks
                     (add_product (the (product pageAnalysis)) normalizedProductUrl st))
         else fold enqueue allRelevantLinks st)"

text \<open>
  The \<^verbatim>\<open>try\<close> block for one URL. An exception inside it is caught and logged by the
  loop, so the state at that moment is the outcome.
\<close>

definition process_page :: "world \<Rightarrow> string \<Rightarrow> string \<Rightarrow> crawl_state \<Rightarrow> crawl_state" where
  "process_page w baseDomain currentUrl st0 =
     (let st1 = st0\<lparr>calls := calls st0 @ [Fetch currentUrl]\<rparr>
      in case fetchPage w currentUrl of
           Inl e \<Rightarrow> st1
         | Inr None \<Rightarrow> st1
         | Inr (Some (html, links, baseUrl)) \<Rightarrow>
             let filteredLinks = filteredLinks_of baseDomain baseUrl currentUrl (visited st1) links;
                 pageAnalysis = analyzePageWithGemini w html currentUrl filteredLinks;
                 st2 = st1\<lparr>calls := calls st1 @ [Analyze currentUrl]\<rparr>
             in integrate baseDomain baseUrl currentUrl pageAnalysis st2)"

text \<open>One iteration of the \<^verbatim>\<open>while\<close> loop, entered with a non-empty queue.\<close>

definition crawl_body :: "world \<Rightarrow> string \<Rightarrow> string \<Rightarrow> crawl_state \<Rightarrow> crawl_state" where
  "crawl_body w baseDomain normalizedStartUrl st =
     (case pending st of
        [] \<Rightarrow> st
      | currentUrl # rest \<Rightarrow>
          let st0 = st\<lparr>pending := rest\<rparr>
          in if currentUrl = [] then st0
             else if isResourceUrl currentUrl then st0
             else if \<not> isLikely (isLikelyProductOrListingUrl currentUrl)
                     \<and> normalizedStartUrl \<noteq> currentUrl then st0
             else process_page w baseDomain currentUrl st0)"

definition continues :: "int \<Rightarrow> crawl_state \<Rightarrow> bool" where
  "continues maxPages st = (length (pending st) > 0 \<and> int (length (visited st)) < maxPages)"

text \<open>
  Every iteration either adds links to \<open>visited\<close>, or leaves it as it is and shortens
  the queue; this is why the loop ends.
\<close>

lemma fold_enqueue_shape:
  "\<exists>new. visited (fold enqueue ls st) = visited st @ new
        \<and> pending (fold enqueue ls st) = pending st @ new
        \<and> collected (fold enqueue ls st) = collected st
        \<and> seenProducts (fold enqueue ls st) = seenProducts st
        \<and> calls (fold enqueue ls st) = calls st"
proof (induction ls arbitrary: st)
  case Nil
  then show ?case by simp
next
  case (Cons l ls)
  obtain new where n: "visited (fold enqueue ls (enqueue l st)) = visited (enqueue l st) @ new"
    "pending (fold enqueue ls (enqueue l st)) = pending (enqueue l st) @ new"
    "collected (fold enqueue ls (enqueue l st)) = collected (enqueue l st)"
    "seenProducts (fold enqueue ls (enqueue l st)) = seenProducts (enqueue l st)"
    "calls (fold enqueue ls (enqueue l st)) = calls (enqueue l st)"
    using Cons.IH[of "enqueue l st"] by blast
  show ?case
  proof (cases "l \<in> set (visited st)")
    case True
    then have "enqueue l st = st" by (simp add: enqueue_def)
    then show ?thesis using n by simp
  next
    case False
    then have e: "visited (enqueue l st) = visited st @ [l]" "pending (enqueue l st) = pending st @ [l]"
      "collected (enqueue l st) = collected st" "seenProducts (enqueue l st) = seenProducts st"
      "calls (enqueue l st) = calls st"
      by (simp_all add: enqueue_def)
    show ?thesis using n unfolding e by simp
  qed
qed

lemma add_product_shape:
  "visited (add_product p n st) = visited st \<and> pending (add_product p n st) = pending st
   \<and> calls (add_product p n st) = calls st"
  by (simp add: add_product_def)

lemma integrate_shape:
  "\<exists>new. visited (integrate b bu c pa st) = visited st @ new
        \<and> pending (integrate b bu c pa st) = pending st @ new
        \<and> calls (integrate b bu c pa st) = calls st"
proof -
  have *: "\<exists>new. visited (fold enqueue ls st') = visited st @ new
        \<and> pending (fold enqueue ls st') = pending st @ new
        \<and> calls (fold enqueue ls st') = calls st"
    if "visited st' = visited st" "pending st' = pending st" "calls st' = calls st" for ls st'
    using fold_enqueue_shape[of ls st'] that by auto
  show ?thesis
    unfolding integrate_def Let_def
    by (auto split: sum.splits simp: add_product_shape intro!: *)
qed

lemma process_page_shape:
  "\<exists>new. visited (process_page w b c st) = visited st @ new
        \<and> pending (process_page w b c st) = pending st @ new"
proof -
  have *: "\<exists>new. visited (integrate b bu c pa st') = visited st @ new
        \<and> pending (integrate b bu c pa st') = pending st @ new"
    if "visited st' = visited st" "pending st' = pending st" for bu pa st'
    using integrate_shape[of b bu c pa st'] that by auto
  show ?thesis
    unfolding process_page_def Let_def
    by (auto split: sum.splits option.splits prod.splits intro!: *)
qed

lemma crawl_body_shape:
  assumes "pending st = c # rest"
  shows "\<exists>new. visited (crawl_body w b n st) = visited st @ new
        \<and> pending (crawl_body w b n st) = rest @ new"
proof -
  have "\<exists>new. visited (process_page w b c (st\<lparr>pending := rest\<rparr>)) = visited st @ new
        \<and> pending (process_page w b c (st\<lparr>pending := rest\<rparr>)) = rest @ new"
    using process_page_shape[of w b c "st\<lparr>pending := rest\<rparr>"] by simp
  then show ?thesis using assms unfolding crawl_body_def Let_def by auto
qed

lemma crawl_body_decreases:
  assumes "continues m st"
  shows "((nat (m - int (length (visited (crawl_body w b n st)))), length (pending (crawl_body w b n st))),
          (nat (m - int (length (visited st))), length (pending st)))
         \<in> less_than <*lex*> less_than"
proof -
  from assms obtain c rest where p: "pending st = c # rest"
    unfolding continues_def by (cases "pending st") auto
  from crawl_body_shape[OF p, of w b n] obtain new where
    n: "visited (crawl_body w b n st) = visited st @ new" "pending (crawl_body w b n st) = rest @ new"
    by blast
  from assms have lt: "int (length (visited st)) < m" unfolding continues_def by simp
  show ?thesis
  proof (cases new)
    case Nil
    then show ?thesis using n p by simp
  next
    case (Cons a as)
    then show ?thesis using n p lt by auto
  qed
qed

text \<open>The \<^verbatim>\<open>while\<close> loop.\<close>

function crawl_loop :: "world \<Rightarrow> string \<Rightarrow> string \<Rightarrow> int \<Rightarrow> crawl_state \<Rightarrow> crawl_state" where
  "crawl_loop w baseDomain normalizedStartUrl maxPages st =
     (if continues maxPages st
      then crawl_loop w baseDomain normalizedStartUrl maxPages
             (crawl_body w baseDomain normalizedStartUrl st)
      else st)"
  by pat_completeness auto
termination
proof (relation "inv_image (less_than <*lex*> less_than)
         (\<lambda>(w, b, n, m, st). (nat (m - int (length (visited st))), length (pending st)))")
  show "wf (inv_image (less_than <*lex*> less_than)
         (\<lambda>(w :: world, b :: string, n :: string, m :: int, st :: crawl_state).
            (nat (m - int (length (visited st))), length (pending st))))"
    by (intro wf_inv_image wf_lex_prod wf_less_than)
next
  fix w b n m st
  assume "continues m st"
  then show "((w, b, n, m, crawl_body w b n st), (w, b, n, m, st))
       \<in> inv_image (less_than <*lex*> less_than)
         (\<lambda>(w, b, n, m, st). (nat (m - int (length (visited st))), length (pending st)))"
    using crawl_body_decreases[of m st w b n] by simp
qed


declare crawl_loop.simps [simp del]

text \<open>
  \<^verbatim>\<open>crawlWebsite\<close>: \<open>Inl\<close> is the rejection of the promise it returns (there is a
  \<^verbatim>\<open>finally\<close> but no \<^verbatim>\<open>catch\<close> around the run), \<open>Inr\<close> the result it is fulfilled
  with; the second component lists the renderer and classifier calls made.
\<close>

definition initial_state :: "string \<Rightarrow> crawl_state" where
  "initial_state normalizedStartUrl =
     \<lparr> visited = [normalizedStartUrl], pending = [normalizedStartUrl],
       collected = [], seenProducts = [], calls = [] \<rparr>"

definition crawlWebsite :: "world \<Rightarrow> string \<Rightarrow> int \<Rightarrow> (error + CrawlResult) \<times> call list" where
  "crawlWebsite w startUrl maxPages =
     (if \<not> isValidUrl startUrl
      then (Inr \<lparr>products = [], visitedUrls = [], error = Some ''Invalid start URL''\<rparr>, [])
      else
        let baseDomain = getBaseDomain startUrl
        in case normalizeUrl startUrl of
             Inl e \<Rightarrow> (Inl e, [])
           | Inr normalizedStartUrl \<Rightarrow>
               (case initBrowser_outcome w of
                  LaunchThrows e \<Rightarrow> (Inl e, [])
                | NewPageThrows e \<Rightarrow>
                    (case close_outcome w of Some e' \<Rightarrow> (Inl e', []) | None \<Rightarrow> (Inl e, []))
                | Ready \<Rightarrow>
                    let st = crawl_loop w baseDomain normalizedStartUrl maxPages
                               (initial_state normalizedStartUrl)
                    in case close_outcome w of
                         Some e' \<Rightarrow> (Inl e', calls st)
                       | None \<Rightarrow>
                           (Inr \<lparr>products = deduplicateProducts (collected st),
                                 visitedUrls = visited st, error = None\<rparr>,
                            calls st)))"

section \<open>The batched crawler\<close>

text \<open>
  The second version of \<^verbatim>\<open>crawler.ts\<close> in the repository keeps a priority with every
  pending URL, takes the URLs in batches and works on a batch concurrently. It has no
  likely-URL gate and hands all links of a page to the classifier.
\<close>

record PendingUrl =
  url :: string
  priority :: int

definition CONCURRENT_CRAWLS :: nat where
  "CONCURRENT_CRAWLS = 3"

definition BATCH_SIZE :: nat where
  "BATCH_SIZE = 5"

text \<open>\<open>urlCache\<close> is the \<^verbatim>\<open>Map\<close> of analyses, the other fields are as before.\<close>

record batch_state =
  visitedB :: "string list"
  pendingB :: "PendingUrl list"
  collectedB :: "ProductData list"
  seenProductsB :: "string list"
  urlCache :: "(string \<times> PageAnalysis) list"
  callsB :: "call list"

definition chunk :: "'a list \<Rightarrow> nat \<Rightarrow> 'a list list" where
  "chunk array n =
     map (\<lambda>i. take n (drop (i * n) array)) [0 ..< (length array + n - 1) div n]"

text \<open>The inner function \<^verbatim>\<open>processUrl\<close>: the entries one call pushes, none or one.\<close>

definition processUrl :: "string \<Rightarrow> string \<Rightarrow> string list \<Rightarrow> string \<Rightarrow> int \<Rightarrow> PendingUrl list" where
  "processUrl baseUrl baseDomain visitedUrls' link prio =
     (case resolve_normalized link baseUrl of
        None \<Rightarrow> []
      | Some normalizedLink \<Rightarrow>
          if getBaseDomain normalizedLink = baseDomain \<and> normalizedLink \<notin> set visitedUrls'
          then [\<lparr>url = normalizedLink, priority = prio\<rparr>]
          else [])"

definition processNewUrls :: "string list \<Rightarrow> string \<Rightarrow> string \<Rightarrow> string list \<Rightarrow> PageAnalysis \<Rightarrow> PendingUrl list" where
  "processNewUrls links baseUrl baseDomain visitedUrls' pageAnalysis =
     concat (map (\<lambda>l. processUrl baseUrl baseDomain visitedUrls' l 3)
                 (links_or_empty (productLinks pageAnalysis)))
     @ concat (map (\<lambda>l. processUrl baseUrl baseDomain visitedUrls' l 2)
                   (links_or_empty (paginationLinks pageAnalysis)))
     @ concat (map (\<lambda>l. processUrl baseUrl baseDomain visitedUrls' l 2)
                   (links_or_empty (categoryLinks pageAnalysis)))
     @ concat (map (\<lambda>l. processUrl baseUrl baseDomain visitedUrls' l 1)
                   (links_or_empty (otherRelevantLinks pageAnalysis)))"

text \<open>The callback of \<^verbatim>\<open>newUrls.forEach\<close>.\<close>

definition enqueueB :: "PendingUrl \<Rightarrow> batch_state \<Rightarrow> batch_state" where
  "enqueueB newUrl st =
     (if url newUrl \<in> set (visitedB st) then st
      else st\<lparr>visitedB := visitedB st @ [url newUrl], pendingB := pendingB st @ [newUrl]\<rparr>)"

definition add_productB :: "ProductData \<Rightarrow> string \<Rightarrow> batch_state \<Rightarrow> batch_state" where
  "add_productB p normalizedProductUrl st =
     (if normalizedProductUrl \<in> set (seenProductsB st) then st
      else st\<lparr>collectedB := collectedB st @ [p\<lparr>ProductData.url := normalizedProductUrl\<rparr>],
              seenProductsB := seenProductsB st @ [normalizedProductUrl]\<rparr>)"

text \<open>The cached analysis of a page, or a new one, which is then cached.\<close>

definition cached_analysis :: "world \<Rightarrow> string \<Rightarrow> string \<Rightarrow> string list \<Rightarrow> batch_state \<Rightarrow> PageAnalysis \<times> batch_state" where
  "cached_analysis w u html links st =
     (case map_of (urlCache st) u of
        Some pageAnalysis \<Rightarrow> (pageAnalysis, st)
      | None \<Rightarrow>
          let pageAnalysis = analyzePageWithGemini w html u links
          in (pageAnalysis,
              st\<lparr>urlCache := urlCache st @ [(u, pageAnalysis)],
                 callsB := callsB st @ [Analyze u]\<rparr>))"

definition integrateB :: "string \<Rightarrow> string \<Rightarrow> string \<Rightarrow> string list \<Rightarrow> PageAnalysis \<Rightarrow> batch_state \<Rightarrow> batch_state" where
  "integrateB baseDomain baseUrl u links pageAnalysis st =
     (if pageType pageAnalysis = ''product'' \<and> product pageAnalysis \<noteq> None
      then (case normalizeUrl u of
              Inl e \<Rightarrow> st
            | Inr normalizedProductUrl \<Rightarrow>
                fold enqueueB
                  (processNewUrls links baseUrl baseDomain (visitedB st) pageAnalysis)
                  (add_productB (the (product pageAnalysis)) normalizedProductUrl st))
      else fold enqueueB (processNewUrls links baseUrl baseDomain (visitedB st) pageAnalysis) st)"

text \<open>
  What one task of a batch does to the shared variables once its page is there. All of
  it happens after the task's last \<^verbatim>\<open>await\<close>, except the cache lookup, which no other
  task of the batch can influence unless it works on the same URL.
\<close>

definition complete_task :: "world \<Rightarrow> string \<Rightarrow> string \<Rightarrow> batch_state \<Rightarrow> batch_state" where
  "complete_task w baseDomain u st =
     (case fetchPage w u of
        Inl e \<Rightarrow> st
      | Inr None \<Rightarrow> st
      | Inr (Some (html, links, baseUrl)) \<Rightarrow>
          (case cached_analysis w u html links st of
             (pageAnalysis, st1) \<Rightarrow> integrateB baseDomain baseUrl u links pageAnalysis st1))"

text \<open>
  \<^verbatim>\<open>pendingUrls.sort((a, b) => b.priority - a.priority)\<close> is the stable sort by
  descending priority. One iteration of the \<^verbatim>\<open>while\<close> loop: sort, take a batch, start a task for every
  URL of every chunk (a resource URL ends its task at once, the others call the
  renderer), and let the tasks complete in the order in which the world finishes them.
\<close>

definition sort_by_priority :: "PendingUrl list \<Rightarrow> PendingUrl list" where
  "sort_by_priority pendingUrls' = sort_key (\<lambda>p. - priority p) pendingUrls'"

definition batch_body :: "world \<Rightarrow> string \<Rightarrow> batch_state \<Rightarrow> batch_state" where
  "batch_body w baseDomain st =
     (let sorted = sort_by_priority (pendingB st);
          currentBatch = take BATCH_SIZE sorted;
          st0 = st\<lparr>pendingB := drop BATCH_SIZE sorted\<rparr>;
          tasks = filter (\<lambda>u. \<not> isResourceUrl u)
                    (map url (concat (chunk currentBatch CONCURRENT_CRAWLS)));
          st1 = st0\<lparr>callsB := callsB st0 @ map Fetch tasks\<rparr>
      in fold (complete_task w baseDomain) (sort_key (finish w) tasks) st1)"

definition continuesB :: "int \<Rightarrow> batch_state \<Rightarrow> bool" where
  "continuesB maxPages st = (length (pendingB st) > 0 \<and> int (length (visitedB st)) < maxPages)"

text \<open>
  Every iteration takes at least one entry out of the queue, and what it adds to the
  queue it adds to \<open>visitedB\<close> as well.
\<close>

lemma fold_enqueueB_shape:
  "\<exists>new. visitedB (fold enqueueB ls st) = visitedB st @ map url new
        \<and> pendingB (fold enqueueB ls st) = pendingB st @ new
        \<and> callsB (fold enqueueB ls st) = callsB st"
proof (induction ls arbitrary: st)
  case Nil
  then show ?case by simp
next
  case (Cons l ls)
  obtain new where n: "visitedB (fold enqueueB ls (enqueueB l st)) = visitedB (enqueueB l st) @ map url new"
    "pendingB (fold enqueueB ls (enqueueB l st)) = pendingB (enqueueB l st) @ new"
    "callsB (fold enqueueB ls (enqueueB l st)) = callsB (enqueueB l st)"
    using Cons.IH[of "enqueueB l st"] by blast
  show ?case
  proof (cases "url l \<in> set (visitedB st)")
    case True
    then have "enqueueB l st = st" by (simp add: enqueueB_def)
    then show ?thesis using n by simp
  next
    case False
    then have e: "visitedB (enqueueB l st) = visitedB st @ [url l]"
      "pendingB (enqueueB l st) = pendingB st @ [l]"
      "callsB (enqueueB l st) = callsB st"
      by (simp_all add: enqueueB_def)
    have "visitedB (fold enqueueB (l # ls) st) = visitedB st @ map url (l # new)"
      "pendingB (fold enqueueB (l # ls) st) = pendingB st @ (l # new)"
      "callsB (fold enqueueB (l # ls) st) = callsB st"
      using n unfolding e by simp_all
    then show ?thesis by blast
  qed
qed

lemma add_productB_shape:
  "visitedB (add_productB p n st) = visitedB st \<and> pendingB (add_productB p n st) = pendingB st"
  by (simp add: add_productB_def)

lemma integrateB_shape:
  "\<exists>new. visitedB (integrateB b bu u ls pa st) = visitedB st @ map url new
        \<and> pendingB (integrateB b bu u ls pa st) = pendingB st @ new"
proof -
  have *: "\<exists>new. visitedB (fold enqueueB xs st') = visitedB st @ map url new
        \<and> pendingB (fold enqueueB xs st') = pendingB st @ new"
    if "visitedB st' = visitedB st" "pendingB st' = pendingB st" for xs st'
    using fold_enqueueB_shape[of xs st'] that by auto
  show ?thesis
    unfolding integrateB_def
    by (auto split: sum.splits simp: add_productB_shape intro!: *)
qed

lemma cached_analysis_shape:
  "cached_analysis w u html links st = (pa, st1) \<Longrightarrow>
     visitedB st1 = visitedB st \<and> pendingB st1 = pendingB st"
  by (auto simp: cached_analysis_def Let_def split: option.splits)

lemma complete_task_shape:
  "\<exists>new. visitedB (complete_task w b u st) = visitedB st @ map url new
        \<and> pendingB (complete_task w b u st) = pendingB st @ new"
proof (cases "fetchPage w u")
  case (Inl e)
  then show ?thesis by (simp add: complete_task_def)
next
  case (Inr r)
  show ?thesis
  proof (cases r)
    case None
    then show ?thesis using Inr by (simp add: complete_task_def)
  next
    case (Some t)
    obtain html links baseUrl where t: "t = (html, links, baseUrl)" by (cases t) auto
    obtain pa st1 where c: "cached_analysis w u html links st = (pa, st1)" by fastforce
    have s: "visitedB st1 = visitedB st" "pendingB st1 = pendingB st"
      using cached_analysis_shape[OF c] by simp_all
    have "complete_task w b u st = integrateB b baseUrl u links pa st1"
      using Inr Some t c by (simp add: complete_task_def)
    then show ?thesis using integrateB_shape[of b baseUrl u links pa st1] s by simp
  qed
qed

lemma fold_complete_task_shape:
  "\<exists>new. visitedB (fold (complete_task w b) us st) = visitedB st @ map url new
        \<and> pendingB (fold (complete_task w b) us st) = pendingB st @ new"
proof (induction us arbitrary: st)
  case Nil
  then show ?case by simp
next
  case (Cons u us)
  obtain n1 where n1: "visitedB (complete_task w b u st) = visitedB st @ map url n1"
    "pendingB (complete_task w b u st) = pendingB st @ n1"
    using complete_task_shape[of w b u st] by blast
  obtain n2 where n2: "visitedB (fold (complete_task w b) us (complete_task w b u st))
        = visitedB (complete_task w b u st) @ map url n2"
    "pendingB (fold (complete_task w b) us (complete_task w b u st))
        = pendingB (complete_task w b u st) @ n2"
    using Cons.IH[of "complete_task w b u st"] by blast
  have "visitedB (fold (complete_task w b) (u # us) st) = visitedB st @ map url (n1 @ n2)"
    "pendingB (fold (complete_task w b) (u # us) st) = pendingB st @ (n1 @ n2)"
    using n1 n2 by simp_all
  then show ?case by blast
qed

lemma batch_body_shape:
  "\<exists>new. visitedB (batch_body w b st) = visitedB st @ map url new
        \<and> pendingB (batch_body w b st)
            = drop BATCH_SIZE (sort_key (\<lambda>p. - priority p) (pendingB st)) @ new"
proof -
  define st1 where "st1 = st\<lparr>pendingB := drop BATCH_SIZE (sort_key (\<lambda>p. - priority p) (pendingB st)),
      callsB := callsB st @ map Fetch (filter (\<lambda>u. \<not> isResourceUrl u)
                    (map url (concat (chunk (take BATCH_SIZE (sort_key (\<lambda>p. - priority p) (pendingB st))) CONCURRENT_CRAWLS))))\<rparr>"
  have b: "batch_body w b st = fold (complete_task w b) (sort_key (finish w) (filter (\<lambda>u. \<not> isResourceUrl u)
                    (map url (concat (chunk (take BATCH_SIZE (sort_key (\<lambda>p. - priority p) (pendingB st))) CONCURRENT_CRAWLS))))) st1"
    unfolding batch_body_def Let_def st1_def sort_by_priority_def by simp
  show ?thesis unfolding b
    using fold_complete_task_shape[of w b _ st1] by (simp add: st1_def)
qed

lemma batch_body_decreases:
  assumes "continuesB m st"
  shows "((nat (m - int (length (visitedB (batch_body w b st)))), length (pendingB (batch_body w b st))),
          (nat (m - int (length (visitedB st))), length (pendingB st)))
         \<in> less_than <*lex*> less_than"
proof -
  from batch_body_shape[of w b st] obtain new where
    n: "visitedB (batch_body w b st) = visitedB st @ map url new"
       "pendingB (batch_body w b st) = drop BATCH_SIZE (sort_key (\<lambda>p. - priority p) (pendingB st)) @ new"
    by blast
  from assms have lt: "int (length (visitedB st)) < m" and ne: "length (pendingB st) > 0"
    unfolding continuesB_def by simp_all
  show ?thesis
  proof (cases new)
    case Nil
    then show ?thesis using n ne by (simp add: BATCH_SIZE_def)
  next
    case (Cons a as)
    then show ?thesis using n lt by auto
  qed
qed

function batch_loop :: "world \<Rightarrow> string \<Rightarrow> int \<Rightarrow> batch_state \<Rightarrow> batch_state" where
  "batch_loop w baseDomain maxPages st =
     (if continuesB maxPages st
      then batch_loop w baseDomain maxPages (batch_body w baseDomain st)
      else st)"
  by pat_completeness auto
termination
proof (relation "inv_image (less_than <*lex*> less_than)
         (\<lambda>(w, b, m, st). (nat (m - int (length (visitedB st))), length (pendingB st)))")
  show "wf (inv_image (less_than <*lex*> less_than)
         (\<lambda>(w :: world, b :: string, m :: int, st :: batch_state).
            (nat (m - int (length (visitedB st))), length (pendingB st))))"
    by (intro wf_inv_image wf_lex_prod wf_less_than)
next
  fix w b m st
  assume "continuesB m st"
  then show "((w, b, m, batch_body w b st), (w, b, m, st))
       \<in> inv_image (less_than <*lex*> less_than)
         (\<lambda>(w, b, m, st). (nat (m - int (length (visitedB st))), length (pendingB st)))"
    using batch_body_decreases[of m st w b] by simp
qed


declare batch_loop.simps [simp del]

definition initial_stateB :: "string \<Rightarrow> batch_state" where
  "initial_stateB normalizedStartUrl =
     \<lparr> visitedB = [normalizedStartUrl],
       pendingB = [\<lparr>url = normalizedStartUrl, priority = 1\<rparr>],
       collectedB = [], seenProductsB = [], urlCache = [], callsB = [] \<rparr>"

text \<open>\<^verbatim>\<open>crawlWebsite\<close> of the batched version.\<close>

definition crawlWebsiteB :: "world \<Rightarrow> string \<Rightarrow> int \<Rightarrow> (error + CrawlResult) \<times> call list" where
  "crawlWebsiteB w startUrl maxPages =
     (if \<not> isValidUrl startUrl
      then (Inr \<lparr>products = [], visitedUrls = [], error = Some ''Invalid start URL''\<rparr>, [])
      else
        let baseDomain = getBaseDomain startUrl
        in case normalizeUrl startUrl of
             Inl e \<Rightarrow> (Inl e, [])
           | Inr normalizedStartUrl \<Rightarrow>
               (case initBrowser_outcome w of
                  LaunchThrows e \<Rightarrow> (Inl e, [])
                | NewPageThrows e \<Rightarrow>
                    (case close_outcome w of Some e' \<Rightarrow> (Inl e', []) | None \<Rightarrow> (Inl e, []))
                | Ready \<Rightarrow>
                    let st = batch_loop w baseDomain maxPages (initial_stateB normalizedStartUrl)
                    in case close_outcome w of
                         Some e' \<Rightarrow> (Inl e', callsB st)
                       | None \<Rightarrow>
                           (Inr \<lparr>products = deduplicateProducts (collectedB st),
                                 visitedUrls = visitedB st, error = None\<rparr>,
                            callsB st)))"

text \<open>
  The state at the head of the loop after \<open>k\<close> iterations (the final state, once the
  loop has ended), for looking at a run while it goes on.
\<close>

definition crawl_after :: "world \<Rightarrow> string \<Rightarrow> string \<Rightarrow> int \<Rightarrow> nat \<Rightarrow> crawl_state \<Rightarrow> crawl_state" where
  "crawl_after w baseDomain normalizedStartUrl maxPages k st =
     ((\<lambda>s. if continues maxPages s then crawl_body w baseDomain normalizedStartUrl s else s) ^^ k) st"

definition batch_after :: "world \<Rightarrow> string \<Rightarrow> int \<Rightarrow> nat \<Rightarrow> batch_state \<Rightarrow> batch_state" where
  "batch_after w baseDomain maxPages k st =
     ((\<lambda>s. if continuesB maxPages s then batch_body w baseDomain s else s) ^^ k) st"

section \<open>The frontier invariant\<close>

text \<open>
  In both versions the visited set and the queue hold no URL twice, and every queued
  URL is in the visited set. The invariant holds at the start and every operation on
  the state keeps it.
\<close>

definition frontier_inv :: "crawl_state \<Rightarrow> bool" where
  "frontier_inv st =
     (distinct (visited st) \<and> distinct (pending st) \<and> set (pending st) \<subseteq> set (visited st))"

lemma enqueue_inv: "frontier_inv st \<Longrightarrow> frontier_inv (enqueue l st)"
  by (auto simp: frontier_inv_def enqueue_def)

lemma fold_enqueue_inv: "frontier_inv st \<Longrightarrow> frontier_inv (fold enqueue ls st)"
  by (induction ls arbitrary: st) (simp_all add: enqueue_inv)

lemma add_product_inv: "frontier_inv st \<Longrightarrow> frontier_inv (add_product p n st)"
  by (simp add: frontier_inv_def add_product_def)

lemma integrate_inv: "frontier_inv st \<Longrightarrow> frontier_inv (integrate b bu c pa st)"
  by (auto simp: integrate_def Let_def fold_enqueue_inv add_product_inv split: sum.splits)

lemma process_page_inv: "frontier_inv st \<Longrightarrow> frontier_inv (process_page w b c st)"
proof -
  assume a: "frontier_inv st"
  have *: "frontier_inv (st\<lparr>calls := cs\<rparr>)" for cs
    using a by (simp add: frontier_inv_def)
  show ?thesis
    unfolding process_page_def Let_def
    by (auto split: sum.splits option.splits prod.splits intro!: integrate_inv *)
qed

lemma crawl_body_inv: "frontier_inv st \<Longrightarrow> frontier_inv (crawl_body w b n st)"
proof -
  assume a: "frontier_inv st"
  show ?thesis
  proof (cases "pending st")
    case Nil
    then show ?thesis using a by (simp add: crawl_body_def)
  next
    case (Cons c rest)
    have r: "frontier_inv (st\<lparr>pending := rest\<rparr>)"
      using a Cons by (auto simp: frontier_inv_def)
    show ?thesis using Cons r by (simp add: crawl_body_def Let_def process_page_inv)
  qed
qed

lemma initial_state_inv: "frontier_inv (initial_state n)"
  by (simp add: frontier_inv_def initial_state_def)

lemma crawl_after_Suc:
  "crawl_after w b n m (Suc k) st =
    (if continues m (crawl_after w b n m k st)
     then crawl_body w b n (crawl_after w b n m k st)
     else crawl_after w b n m k st)"
  by (simp add: crawl_after_def)

lemma crawl_after_inv: "frontier_inv st \<Longrightarrow> frontier_inv (crawl_after w b n m k st)"
proof (induction k)
  case 0
  then show ?case by (simp add: crawl_after_def)
next
  case (Suc k)
  then show ?case by (simp add: crawl_after_Suc crawl_body_inv)
qed

lemma crawl_body_prefix: "prefix (visited st) (visited (crawl_body w b n st))"
proof (cases "pending st")
  case Nil
  then show ?thesis by (simp add: crawl_body_def)
next
  case (Cons c rest)
  then show ?thesis using crawl_body_shape[OF Cons, of w b n] by (auto simp: prefix_def)
qed

lemma crawl_after_prefix:
  "prefix (visited (crawl_after w b n m k st)) (visited (crawl_after w b n m (Suc k) st))"
  by (simp add: crawl_after_Suc crawl_body_prefix)

lemma crawl_loop_after: "\<exists>k. crawl_loop w b n m st = crawl_after w b n m k st"
proof (induction w b n m st rule: crawl_loop.induct)
  case (1 w b n m st)
  show ?case
  proof (cases "continues m st")
    case True
    then obtain k where k: "crawl_loop w b n m (crawl_body w b n st) = crawl_after w b n m k (crawl_body w b n st)"
      using 1 by blast
    have "crawl_after w b n m (Suc k) st = crawl_after w b n m k (crawl_body w b n st)"
      using True by (simp only: crawl_after_def funpow_Suc_right o_apply if_True)
    moreover have "crawl_loop w b n m st = crawl_loop w b n m (crawl_body w b n st)"
      using True by (subst crawl_loop.simps) simp
    ultimately have "crawl_loop w b n m st = crawl_after w b n m (Suc k) st"
      using k by simp
    then show ?thesis by blast
  next
    case False
    then have "crawl_loop w b n m st = crawl_after w b n m 0 st"
      by (subst crawl_loop.simps) (simp add: crawl_after_def)
    then show ?thesis by blast
  qed
qed

definition frontier_invB :: "batch_state \<Rightarrow> bool" where
  "frontier_invB st =
     (distinct (visitedB st) \<and> distinct (map url (pendingB st))
      \<and> set (map url (pendingB st)) \<subseteq> set (visitedB st))"

lemma enqueueB_inv: "frontier_invB st \<Longrightarrow> frontier_invB (enqueueB l st)"
  by (auto simp: frontier_invB_def enqueueB_def)

lemma fold_enqueueB_inv: "frontier_invB st \<Longrightarrow> frontier_invB (fold enqueueB ls st)"
  by (induction ls arbitrary: st) (simp_all add: enqueueB_inv)

lemma add_productB_inv: "frontier_invB st \<Longrightarrow> frontier_invB (add_productB p n st)"
  by (simp add: frontier_invB_def add_productB_def)

lemma integrateB_inv: "frontier_invB st \<Longrightarrow> frontier_invB (integrateB b bu u ls pa st)"
  by (auto simp: integrateB_def fold_enqueueB_inv add_productB_inv split: sum.splits)

lemma cached_analysis_inv:
  "cached_analysis w u html links st = (pa, st1) \<Longrightarrow> frontier_invB st \<Longrightarrow> frontier_invB st1"
  using cached_analysis_shape[of w u html links st pa st1] by (simp add: frontier_invB_def)

lemma complete_task_inv: "frontier_invB st \<Longrightarrow> frontier_invB (complete_task w b u st)"
  by (auto simp: complete_task_def split: sum.splits option.splits prod.splits
           intro!: integrateB_inv dest: cached_analysis_inv)

lemma fold_complete_task_inv:
  "frontier_invB st \<Longrightarrow> frontier_invB (fold (complete_task w b) us st)"
  by (induction us arbitrary: st) (simp_all add: complete_task_inv)

lemma batch_body_inv:
  assumes "frontier_invB st"
  shows "frontier_invB (batch_body w b st)"
proof -
  let ?sorted = "sort_key (\<lambda>p. - priority p) (pendingB st)"
  have d: "distinct (map url ?sorted)"
  proof -
    have "distinct (map url (pendingB st))" using assms by (simp add: frontier_invB_def)
    then have "distinct (pendingB st)" "inj_on url (set (pendingB st))"
      by (simp_all add: distinct_map)
    then show ?thesis by (simp add: distinct_map)
  qed
  have "distinct (map url (drop BATCH_SIZE ?sorted))"
    using d by (simp add: distinct_drop drop_map[symmetric])
  moreover have "set (map url (drop BATCH_SIZE ?sorted)) \<subseteq> set (visitedB st)"
    using assms set_drop_subset[of BATCH_SIZE ?sorted] by (auto simp: frontier_invB_def)
  ultimately have "frontier_invB (st\<lparr>pendingB := drop BATCH_SIZE ?sorted, callsB := cs\<rparr>)" for cs
    using assms by (simp add: frontier_invB_def)
  then show ?thesis
    unfolding batch_body_def Let_def sort_by_priority_def by (simp add: fold_complete_task_inv)
qed

lemma initial_stateB_inv: "frontier_invB (initial_stateB n)"
  by (simp add: frontier_invB_def initial_stateB_def)

lemma batch_after_Suc:
  "batch_after w b m (Suc k) st =
    (if continuesB m (batch_after w b m k st)
     then batch_body w b (batch_after w b m k st)
     else batch_after w b m k st)"
  by (simp add: batch_after_def)

lemma batch_after_inv: "frontier_invB st \<Longrightarrow> frontier_invB (batch_after w b m k st)"
proof (induction k)
  case 0
  then show ?case by (simp add: batch_after_def)
next
  case (Suc k)
  then show ?case by (simp add: batch_after_Suc batch_body_inv)
qed

lemma batch_after_prefix:
  "prefix (visitedB (batch_after w b m k st)) (visitedB (batch_after w b m (Suc k) st))"
  using batch_body_shape[of w b "batch_after w b m k st"]
  by (auto simp: batch_after_Suc prefix_def)

lemma batch_loop_after: "\<exists>k. batch_loop w b m st = batch_after w b m k st"
proof (induction w b m st rule: batch_loop.induct)
  case (1 w b m st)
  show ?case
  proof (cases "continuesB m st")
    case True
    then obtain k where k: "batch_loop w b m (batch_body w b st) = batch_after w b m k (batch_body w b st)"
      using 1 by blast
    have "batch_after w b m (Suc k) st = batch_after w b m k (batch_body w b st)"
      using True by (simp only: batch_after_def funpow_Suc_right o_apply if_True)
    moreover have "batch_loop w b m st = batch_loop w b m (batch_body w b st)"
      using True by (subst batch_loop.simps) simp
    ultimately have "batch_loop w b m st = batch_after w b m (Suc k) st"
      using k by simp
    then show ?thesis by blast
  next
    case False
    then have "batch_loop w b m st = batch_after w b m 0 st"
      by (subst batch_loop.simps) (simp add: batch_after_def)
    then show ?thesis by blast
  qed
qed

subsection \<open>The calls of a run\<close>

definition is_fetch :: "call \<Rightarrow> bool" where
  "is_fetch c = (case c of Fetch u \<Rightarrow> True | Analyze u \<Rightarrow> False)"

definition call_url :: "call \<Rightarrow> string" where
  "call_url c = (case c of Fetch u \<Rightarrow> u | Analyze u \<Rightarrow> u)"

text \<open>The URL passes the gate of the loop: it is the start URL or a likely URL.\<close>

definition passes_gate :: "string \<Rightarrow> string \<Rightarrow> bool" where
  "passes_gate normalizedStartUrl u =
     (u = normalizedStartUrl \<or> isLikely (isLikelyProductOrListingUrl u))"

subsection \<open>Invariants of the loops\<close>

lemma crawl_loop_invariant:
  "P st \<Longrightarrow> (\<And>s. P s \<Longrightarrow> continues m s \<Longrightarrow> P (crawl_body w b n s))
   \<Longrightarrow> P (crawl_loop w b n m st) \<and> \<not> continues m (crawl_loop w b n m st)"
proof (induction w b n m st rule: crawl_loop.induct)
  case (1 w b n m st)
  show ?case
  proof (cases "continues m st")
    case True
    have e: "crawl_loop w b n m st = crawl_loop w b n m (crawl_body w b n st)"
      using True by (subst crawl_loop.simps) simp
    have "P (crawl_body w b n st)" using "1.prems" True by blast
    then show ?thesis using "1.IH"[OF True] "1.prems"(2) e by simp
  next
    case False
    then have "crawl_loop w b n m st = st" by (subst crawl_loop.simps) simp
    then show ?thesis using 1 False by simp
  qed
qed

lemma batch_loop_invariant:
  "P st \<Longrightarrow> (\<And>s. P s \<Longrightarrow> continuesB m s \<Longrightarrow> P (batch_body w b s))
   \<Longrightarrow> P (batch_loop w b m st) \<and> \<not> continuesB m (batch_loop w b m st)"
proof (induction w b m st rule: batch_loop.induct)
  case (1 w b m st)
  show ?case
  proof (cases "continuesB m st")
    case True
    have e: "batch_loop w b m st = batch_loop w b m (batch_body w b st)"
      using True by (subst batch_loop.simps) simp
    have "P (batch_body w b st)" using "1.prems" True by blast
    then show ?thesis using "1.IH"[OF True] "1.prems"(2) e by simp
  next
    case False
    then have "batch_loop w b m st = st" by (subst batch_loop.simps) simp
    then show ?thesis using 1 False by simp
  qed
qed

lemma integrate_calls: "calls (integrate b bu c pa st) = calls st"
  using integrate_shape[of b bu c pa st] by auto

lemma process_page_calls:
  "\<exists>cs. calls (process_page w b c st) = calls st @ Fetch c # cs \<and> (cs = [] \<or> cs = [Analyze c])"
  unfolding process_page_def Let_def
  by (auto split: sum.splits option.splits prod.splits simp: integrate_calls)

lemma crawl_body_calls:
  assumes "pending st = c # rest"
  shows "\<exists>cs. calls (crawl_body w b n st) = calls st @ cs
           \<and> (cs = [] \<or> (passes_gate n c \<and> (cs = [Fetch c] \<or> cs = [Fetch c, Analyze c])))"
proof -
  have p: "\<exists>cs. calls (process_page w b c (st\<lparr>pending := rest\<rparr>)) = calls st @ Fetch c # cs
            \<and> (cs = [] \<or> cs = [Analyze c])"
    using process_page_calls[of w b c "st\<lparr>pending := rest\<rparr>"] by simp
  show ?thesis
  proof (cases "c = [] \<or> isResourceUrl c \<or> \<not> passes_gate n c")
    case True
    then have "crawl_body w b n st = st\<lparr>pending := rest\<rparr>"
      using assms by (auto simp: crawl_body_def Let_def passes_gate_def)
    then show ?thesis by simp
  next
    case False
    then have "crawl_body w b n st = process_page w b c (st\<lparr>pending := rest\<rparr>)"
      using assms by (auto simp: crawl_body_def Let_def passes_gate_def)
    then show ?thesis using p False by auto
  qed
qed



definition gate_inv :: "string \<Rightarrow> crawl_state \<Rightarrow> bool" where
  "gate_inv n st = list_all (\<lambda>c. passes_gate n (call_url c)) (calls st)"

lemma crawl_body_gate:
  assumes "gate_inv n st"
  shows "gate_inv n (crawl_body w b n st)"
proof (cases "pending st")
  case Nil
  then show ?thesis using assms by (simp add: crawl_body_def)
next
  case (Cons c rest)
  from crawl_body_calls[OF Cons, of w b n] obtain cs where
    cs: "calls (crawl_body w b n st) = calls st @ cs"
        "cs = [] \<or> (passes_gate n c \<and> (cs = [Fetch c] \<or> cs = [Fetch c, Analyze c]))"
    by blast
  then have "list_all (\<lambda>c. passes_gate n (call_url c)) cs"
    by (auto simp: call_url_def)
  then show ?thesis using assms cs(1) by (simp add: gate_inv_def)
qed









subsection \<open>Deduplication of products\<close>










subsection \<open>Batches and priorities\<close>

lemma concat_chunks_take:
  "concat (map (\<lambda>i. take n (drop (i * n) xs)) [0 ..< k]) = take (k * n) xs"
proof (induction k)
  case 0
  then show ?case by simp
next
  case (Suc k)
  have "take (k * n) xs @ take n (drop (k * n) xs) = take (k * n + n) xs"
    by (simp add: take_add)
  then show ?case using Suc by (simp add: add.commute)
qed

lemma concat_chunk:
  assumes "0 < n"
  shows "concat (chunk xs n) = xs"
proof -
  let ?k = "(length xs + n - 1) div n"
  have "length xs + n - 1 = ?k * n + (length xs + n - 1) mod n"
    by simp
  moreover have "(length xs + n - 1) mod n < n"
    using assms by simp
  ultimately have "length xs \<le> ?k * n" by linarith
  then show ?thesis
    by (simp add: chunk_def concat_chunks_take)
qed

lemma integrateB_calls: "callsB (integrateB b bu u ls pa st) = callsB st"
proof -
  have *: "callsB (fold enqueueB xs st') = callsB st" if "callsB st' = callsB st" for xs st'
    using fold_enqueueB_shape[of xs st'] that by auto
  show ?thesis
    unfolding integrateB_def
    by (auto split: sum.splits simp: add_productB_def intro!: *)
qed

lemma complete_task_calls:
  "\<exists>as. callsB (complete_task w b u st) = callsB st @ as \<and> (as = [] \<or> as = [Analyze u])"
  by (auto simp: complete_task_def cached_analysis_def Let_def integrateB_calls
           split: sum.splits option.splits prod.splits)

lemma fold_complete_task_calls:
  "\<exists>as. callsB (fold (complete_task w b) us st) = callsB st @ as
        \<and> list_all (\<lambda>c. \<not> is_fetch c \<and> call_url c \<in> set us) as"
proof (induction us arbitrary: st)
  case Nil
  then show ?case by simp
next
  case (Cons u us)
  obtain a1 where a1: "callsB (complete_task w b u st) = callsB st @ a1"
    "a1 = [] \<or> a1 = [Analyze u]"
    using complete_task_calls[of w b u st] by blast
  obtain a2 where a2: "callsB (fold (complete_task w b) us (complete_task w b u st))
        = callsB (complete_task w b u st) @ a2"
    "list_all (\<lambda>c. \<not> is_fetch c \<and> call_url c \<in> set us) a2"
    using Cons.IH[of "complete_task w b u st"] by blast
  have "list_all (\<lambda>c. \<not> is_fetch c \<and> call_url c \<in> set (u # us)) (a1 @ a2)"
    using a1(2) a2(2) by (auto simp: is_fetch_def call_url_def list_all_iff)
  moreover have "callsB (fold (complete_task w b) (u # us) st) = callsB st @ (a1 @ a2)"
    using a1(1) a2(1) by simp
  ultimately show ?case by blast
qed

lemma batch_body_calls:
  "\<exists>as. callsB (batch_body w b st) =
           callsB st
           @ map Fetch (filter (\<lambda>u. \<not> isResourceUrl u)
                          (map url (take BATCH_SIZE (sort_by_priority (pendingB st)))))
           @ as
        \<and> list_all (\<lambda>c. \<not> is_fetch c) as"
proof -
  let ?tasks = "filter (\<lambda>u. \<not> isResourceUrl u)
                  (map url (take BATCH_SIZE (sort_by_priority (pendingB st))))"
  define st1 where "st1 = st\<lparr>pendingB := drop BATCH_SIZE (sort_by_priority (pendingB st)),
      callsB := callsB st @ map Fetch ?tasks\<rparr>"
  have b: "batch_body w b st = fold (complete_task w b) (sort_key (finish w) ?tasks) st1"
    unfolding batch_body_def Let_def st1_def
    by (simp add: concat_chunk CONCURRENT_CRAWLS_def)
  obtain as where "callsB (fold (complete_task w b) (sort_key (finish w) ?tasks) st1) = callsB st1 @ as"
    "list_all (\<lambda>c. \<not> is_fetch c \<and> call_url c \<in> set (sort_key (finish w) ?tasks)) as"
    using fold_complete_task_calls[of w b "sort_key (finish w) ?tasks" st1] by blast
  then have "callsB (batch_body w b st) = callsB st @ map Fetch ?tasks @ as"
    "list_all (\<lambda>c. \<not> is_fetch c) as"
    unfolding b by (simp_all add: st1_def list_all_iff)
  then show ?thesis by blast
qed

lemma sort_by_priority_descending:
  "sorted (map (\<lambda>p. - priority p) (sort_by_priority q))"
  by (simp add: sort_by_priority_def)

lemma batch_before_rest:
  assumes "a \<in> set (take k (sort_by_priority q))" "r \<in> set (drop k (sort_by_priority q))"
  shows "priority r \<le> priority a"
proof -
  let ?s = "sort_by_priority q"
  have s: "sorted (map (\<lambda>p. - priority p) (take k ?s @ drop k ?s))"
    using sort_by_priority_descending[of q] by simp
  have "- priority a \<le> - priority r"
    using s assms unfolding map_append sorted_append by auto
  then show ?thesis by simp
qed

lemma processUrl_entry:
  "e \<in> set (processUrl bu bd vs l p) \<longleftrightarrow>
     (\<exists>nl. resolve_normalized l bu = Some nl \<and> getBaseDomain nl = bd \<and> nl \<notin> set vs
           \<and> e = \<lparr>url = nl, priority = p\<rparr>)"
  by (auto simp: processUrl_def split: option.splits)

lemma processNewUrls_entry:
  "e \<in> set (processNewUrls ls bu bd vs pa) \<longleftrightarrow>
     (\<exists>l nl p. resolve_normalized l bu = Some nl \<and> getBaseDomain nl = bd \<and> nl \<notin> set vs
        \<and> e = \<lparr>url = nl, priority = p\<rparr>
        \<and> (p = 3 \<and> l \<in> set (links_or_empty (productLinks pa))
           \<or> p = 2 \<and> l \<in> set (links_or_empty (paginationLinks pa) @ links_or_empty (categoryLinks pa))
           \<or> p = 1 \<and> l \<in> set (links_or_empty (otherRelevantLinks pa))))"
  unfolding processNewUrls_def by (auto simp: processUrl_entry)

section \<open>Laws of URL normalization\<close>

text \<open>
  What \<open>normalizeUrl\<close> returns is described here by a normal form of the parsed URL:
  the string is parsed, brought to normal form and serialized, and parsing the result
  gives the normal form back.
\<close>

subsection \<open>Letter case\<close>

lemma map_of_zip_None: "length xs = length ys \<Longrightarrow> c \<notin> set xs \<Longrightarrow> map_of (zip xs ys) c = None"
  by (induction xs ys rule: list_induct2) auto

lemma map_of_zip_range:
  "length xs = length ys \<Longrightarrow> map_of (zip xs ys) c = Some d \<Longrightarrow> c \<in> set xs \<and> d \<in> set ys"
  by (induction xs ys rule: list_induct2) (auto split: if_splits)

lemma map_of_zip_Some:
  "length xs = length ys \<Longrightarrow> c \<in> set xs \<Longrightarrow> \<exists>d. map_of (zip xs ys) c = Some d"
  by (induction xs ys rule: list_induct2) auto


lemma letters_length: "length upper_letters = length lower_letters"
  by (simp add: upper_letters_def lower_letters_def)


lemma letters_disjoint: "c \<in> set lower_letters \<Longrightarrow> c \<notin> set upper_letters"
  by (auto simp: lower_letters_def upper_letters_def)


lemma toLowerChar_not_upper: "c \<notin> set upper_letters \<Longrightarrow> toLowerChar c = c"
  by (simp add: toLowerChar_def map_of_zip_None[OF letters_length])

lemma toLowerChar_upper: "c \<in> set upper_letters \<Longrightarrow> toLowerChar c \<in> set lower_letters"
proof -
  assume a: "c \<in> set upper_letters"
  then obtain d where d: "map_of (zip upper_letters lower_letters) c = Some d"
    using map_of_zip_Some[OF letters_length] by blast
  then have "d \<in> set lower_letters"
    using map_of_zip_range[OF letters_length] by blast
  then show ?thesis using d by (simp add: toLowerChar_def)
qed

lemma toLowerChar_range: "toLowerChar c \<notin> set upper_letters"
  by (cases "c \<in> set upper_letters")
     (auto simp: toLowerChar_not_upper dest: toLowerChar_upper letters_disjoint)

lemma toLowerChar_idem: "toLowerChar (toLowerChar c) = toLowerChar c"
  by (simp add: toLowerChar_not_upper toLowerChar_range)

lemma toLowerCase_idem: "toLowerCase (toLowerCase s) = toLowerCase s"
  by (simp add: toLowerCase_def toLowerChar_idem)


text \<open>A character that is no letter is the lower case of itself only.\<close>

lemma toLowerChar_eq_nonletter:
  assumes "\<not> is_letter x"
  shows "toLowerChar c = x \<longleftrightarrow> c = x"
proof (cases "c \<in> set upper_letters")
  case True
  then have "toLowerChar c \<in> set lower_letters" by (rule toLowerChar_upper)
  then show ?thesis using assms True by (auto simp: is_letter_def)
next
  case False
  then show ?thesis by (simp add: toLowerChar_not_upper)
qed

lemma is_letter_lower: "is_letter (toLowerChar c) = is_letter c"
  by (cases "c \<in> set upper_letters")
     (auto simp: is_letter_def toLowerChar_not_upper dest: toLowerChar_upper)

lemma is_digit_not_letter: "is_digit c \<Longrightarrow> \<not> is_letter c"
  by (auto simp: is_digit_def is_letter_def digit_chars_def lower_letters_def upper_letters_def)

lemma is_digit_lower: "is_digit (toLowerChar c) = is_digit c"
proof (cases "c \<in> set upper_letters")
  case True
  then have "is_letter c" by (simp add: is_letter_def)
  then have "is_letter c" "is_letter (toLowerChar c)"
    by (simp_all add: is_letter_lower)
  then show ?thesis using is_digit_not_letter by blast
next
  case False
  then show ?thesis by (simp add: toLowerChar_not_upper)
qed

lemma is_alnum_lower: "is_alnum (toLowerChar c) = is_alnum c"
  by (simp add: is_alnum_def is_letter_lower is_digit_lower)


subsection \<open>Splitting and joining\<close>

lemma split_on_not_Nil: "split_on c s \<noteq> []"
  by (induction s) (auto split: list.splits)

lemma split_on_Cons_sep: "split_on c (c # s) = [] # split_on c s"
  by simp

lemma split_on_Cons_other:
  "x \<noteq> c \<Longrightarrow> split_on c (x # s) = (x # hd (split_on c s)) # tl (split_on c s)"
  using split_on_not_Nil[of c s] by (cases "split_on c s") auto

lemma join_with_Cons: "join_with sep (x # xs) = x @ concat (map (\<lambda>y. sep @ y) xs)"
  by (induction xs arbitrary: x) auto

lemma join_split: "join_with [c] (split_on c s) = s"
proof (induction s)
  case Nil
  then show ?case by simp
next
  case (Cons x s)
  obtain y ys where y: "split_on c s = y # ys"
    using split_on_not_Nil[of c s] by (cases "split_on c s") auto
  then have "s = y @ concat (map (\<lambda>z. [c] @ z) ys)"
    using Cons by (simp add: join_with_Cons)
  then show ?case using y by (auto simp: join_with_Cons)
qed

lemma split_on_no_sep: "c \<notin> set x \<Longrightarrow> split_on c x = [x]"
  by (induction x) auto

lemma split_on_append_sep:
  "c \<notin> set x \<Longrightarrow> split_on c (x @ c # s) = x # split_on c s"
  by (induction x) auto

lemma split_join:
  "xs \<noteq> [] \<Longrightarrow> \<forall>x \<in> set xs. c \<notin> set x \<Longrightarrow> split_on c (join_with [c] xs) = xs"
proof (induction xs)
  case Nil
  then show ?case by simp
next
  case (Cons x xs)
  show ?case
  proof (cases xs)
    case Nil
    then show ?thesis using Cons.prems by (simp add: split_on_no_sep)
  next
    case (Cons y ys)
    then have "split_on c (join_with [c] xs) = xs" using Cons.IH Cons.prems by simp
    then show ?thesis using Cons Cons.prems
      using split_on_append_sep[of c x "join_with [c] xs"] by simp
  qed
qed

lemma split_on_map:
  assumes "\<And>x. f x = c \<longleftrightarrow> x = c"
  shows "split_on c (map f s) = map (map f) (split_on c s)"
proof (induction s)
  case Nil
  then show ?case by simp
next
  case (Cons x s)
  then show ?case using assms by (auto split: list.splits)
qed

lemma split_on_all:
  "list_all (list_all P) (split_on c s) \<longleftrightarrow> list_all (\<lambda>x. x = c \<or> P x) s"
proof (induction s)
  case Nil
  then show ?case by simp
next
  case (Cons x s)
  then show ?case by (auto split: list.splits)
qed

lemma split_on_append:
  "split_on c (xs @ c # ys) = split_on c xs @ split_on c ys"
proof (induction xs)
  case Nil
  then show ?case by simp
next
  case (Cons x xs)
  then show ?case using split_on_not_Nil[of c xs] by (auto split: list.splits)
qed

lemma split_on_snoc_sep: "split_on c (xs @ [c]) = split_on c xs @ [[]]"
  using split_on_append[of c xs "[]"] by simp


subsection \<open>Parsing what was serialized\<close>

text \<open>
  The URL objects the parser can return: a lower-case scheme and host, a path that
  starts with a slash, and components of the modelled characters.
\<close>

definition wf_url :: "URL \<Rightarrow> bool" where
  "wf_url u =
     ((scheme u = ''http'' \<or> scheme u = ''https'')
      \<and> valid_host (hostname u) \<and> toLowerCase (hostname u) = hostname u
      \<and> startsWith ''/'' (pathname u) \<and> valid_path (pathname u)
      \<and> valid_query (query u) \<and> valid_fragment (fragment u))"

lemma special_not_alnum:
  "\<not> is_alnum (CHR ''/'')" "\<not> is_alnum (CHR ''?'')" "\<not> is_alnum (CHR ''#'')"
  "\<not> is_alnum (CHR '':'')" "\<not> is_alnum (CHR ''.'')" "\<not> is_alnum (CHR ''-'')"
  "\<not> is_alnum (CHR ''&'')" "\<not> is_alnum (CHR ''='')"
  by (simp_all add: is_alnum_def is_letter_def is_digit_def lower_letters_def upper_letters_def
        digit_chars_def)

lemma host_char_not_end: "is_host_char c \<or> c = CHR ''.'' \<Longrightarrow> \<not> is_authority_end c"
  using special_not_alnum by (auto simp: is_host_char_def is_authority_end_def)

lemma path_char_not_end: "is_path_char c \<Longrightarrow> \<not> is_path_end c"
  using special_not_alnum by (auto simp: is_path_char_def is_path_end_def)

lemma query_char_not_hash: "is_query_char c \<Longrightarrow> c \<noteq> CHR ''#''"
  using special_not_alnum by (auto simp: is_query_char_def)

lemma takeWhile_stop:
  assumes "\<forall>x \<in> set xs. P x" "ys = [] \<or> \<not> P (hd ys)"
  shows "takeWhile P (xs @ ys) = xs" "dropWhile P (xs @ ys) = ys"
proof -
  have t: "takeWhile P ys = []" and d: "dropWhile P ys = ys"
    using assms(2) by (cases ys; auto)+
  show "takeWhile P (xs @ ys) = xs" using assms(1) t by (simp add: takeWhile_append2)
  show "dropWhile P (xs @ ys) = ys" using assms(1) d by (simp add: dropWhile_append2)
qed

lemma valid_host_chars:
  assumes "valid_host h"
  shows "\<forall>c \<in> set h. is_host_char c \<or> c = CHR ''.''"
proof -
  have "list_all (list_all is_host_char) (split_on (CHR ''.'') h)"
    using assms by (auto simp: valid_host_def valid_label_def Let_def list_all_iff)
  then have "list_all (\<lambda>x. x = CHR ''.'' \<or> is_host_char x) h"
    by (simp only: split_on_all)
  then show ?thesis by (auto simp: list_all_iff)
qed

lemma startsWith_Cons: "startsWith [c] s \<longleftrightarrow> (s \<noteq> [] \<and> hd s = c)"
  by (cases s) auto

lemma startsWith_append: "startsWith p (p @ s)"
  by (induction p) auto

text \<open>
  The parts of \<open>href\<close> after the path.
\<close>

definition query_part :: "URL \<Rightarrow> string" where
  "query_part u = (case query u of None \<Rightarrow> [] | Some q \<Rightarrow> CHR ''?'' # q)"

definition fragment_part :: "URL \<Rightarrow> string" where
  "fragment_part u = (case fragment u of None \<Rightarrow> [] | Some f \<Rightarrow> CHR ''#'' # f)"

lemma href_parts:
  "href u = scheme u @ ''://'' @ hostname u @ pathname u @ query_part u @ fragment_part u"
  by (simp add: href_def query_part_def fragment_part_def)

lemma parse_href:
  assumes "wf_url u"
  shows "URL_parse (href u) = Some u"
proof -
  let ?rest3 = "query_part u @ fragment_part u"
  let ?rest2 = "pathname u @ ?rest3"
  let ?rest1 = "hostname u @ ?rest2"
  from assms have sch: "scheme u = ''http'' \<or> scheme u = ''https''"
    and vh: "valid_host (hostname u)" and lh: "toLowerCase (hostname u) = hostname u"
    and sp: "startsWith ''/'' (pathname u)" and vp: "valid_path (pathname u)"
    and vq: "valid_query (query u)" and vf: "valid_fragment (fragment u)"
    by (simp_all add: wf_url_def)
  have ls: "toLowerCase (scheme u) = scheme u"
    using sch by (auto simp: toLowerCase_def toLowerChar_def upper_letters_def lower_letters_def)
  have s1: "takeWhile (\<lambda>c. c \<noteq> CHR '':'') (href u) = scheme u"
    and s2: "dropWhile (\<lambda>c. c \<noteq> CHR '':'') (href u) = ''://'' @ ?rest1"
    using sch by (auto simp: href_parts)
  have p_ne: "pathname u \<noteq> []" and p_hd: "hd (pathname u) = CHR ''/''"
    using sp by (simp_all add: startsWith_Cons)
  have a1: "takeWhile (\<lambda>c. \<not> is_authority_end c) ?rest1 = hostname u"
    and a2: "dropWhile (\<lambda>c. \<not> is_authority_end c) ?rest1 = ?rest2"
    using takeWhile_stop[of "hostname u" "\<lambda>c. \<not> is_authority_end c" ?rest2]
      valid_host_chars[OF vh] host_char_not_end p_ne p_hd
    by (auto simp: is_authority_end_def)
  have r3: "?rest3 = [] \<or> is_path_end (hd ?rest3)"
    by (auto simp: query_part_def fragment_part_def is_path_end_def split: option.splits)
  have b1: "takeWhile (\<lambda>c. \<not> is_path_end c) ?rest2 = pathname u"
    and b2: "dropWhile (\<lambda>c. \<not> is_path_end c) ?rest2 = ?rest3"
    using takeWhile_stop[of "pathname u" "\<lambda>c. \<not> is_path_end c" ?rest3]
      vp path_char_not_end r3
    by (auto simp: valid_path_def list_all_iff)
  have q: "(if startsWith ''?'' ?rest3
            then Some (takeWhile (\<lambda>c. c \<noteq> CHR ''#'') (tl ?rest3)) else None) = query u"
  proof (cases "query u")
    case None
    then show ?thesis
      by (auto simp: query_part_def fragment_part_def startsWith_Cons split: option.splits)
  next
    case (Some qs)
    have "takeWhile (\<lambda>c. c \<noteq> CHR ''#'') (qs @ fragment_part u) = qs"
      using takeWhile_stop(1)[of qs "\<lambda>c. c \<noteq> CHR ''#''" "fragment_part u"]
        vq query_char_not_hash Some
      by (auto simp: valid_query_def list_all_iff fragment_part_def split: option.splits)
    then show ?thesis using Some by (simp add: query_part_def)
  qed
  have r4: "dropWhile (\<lambda>c. c \<noteq> CHR ''#'') ?rest3 = fragment_part u"
  proof (cases "query u")
    case None
    then show ?thesis
      by (auto simp: query_part_def fragment_part_def split: option.splits)
  next
    case (Some qs)
    have "dropWhile (\<lambda>c. c \<noteq> CHR ''#'') (qs @ fragment_part u) = fragment_part u"
      using takeWhile_stop(2)[of qs "\<lambda>c. c \<noteq> CHR ''#''" "fragment_part u"]
        vq query_char_not_hash Some
      by (auto simp: valid_query_def list_all_iff fragment_part_def split: option.splits)
    then show ?thesis using Some by (simp add: query_part_def)
  qed
  have f: "(if startsWith ''#'' (fragment_part u) then Some (tl (fragment_part u)) else None)
           = fragment u"
    by (auto simp: fragment_part_def split: option.splits)
  have "URL_parse (href u) =
          Some \<lparr> scheme = scheme u, hostname = hostname u, pathname = pathname u,
                 query = query u, fragment = fragment u \<rparr>"
    unfolding URL_parse_def s1 s2 Let_def
    using sch vh vp vq vf p_ne
    by (simp add: a1 a2 b1 b2 q r4 f ls lh cong: if_cong)
  then show ?thesis by simp
qed


subsection \<open>What the parser returns\<close>

lemma special_not_letter:
  "\<not> is_letter (CHR ''/'')" "\<not> is_letter (CHR ''?'')" "\<not> is_letter (CHR ''#'')"
  "\<not> is_letter (CHR '':'')" "\<not> is_letter (CHR ''.'')" "\<not> is_letter (CHR ''-'')"
  "\<not> is_letter (CHR ''&'')" "\<not> is_letter (CHR ''='')"
  using special_not_alnum by (simp_all add: is_alnum_def)

lemma toLowerChar_dot: "toLowerChar x = CHR ''.'' \<longleftrightarrow> x = CHR ''.''"
  by (rule toLowerChar_eq_nonletter) (rule special_not_letter)

lemma toLowerChar_slash: "toLowerChar x = CHR ''/'' \<longleftrightarrow> x = CHR ''/''"
  by (rule toLowerChar_eq_nonletter) (rule special_not_letter)

lemma toLowerChar_amp: "toLowerChar x = CHR ''&'' \<longleftrightarrow> x = CHR ''&''"
  by (rule toLowerChar_eq_nonletter) (rule special_not_letter)

lemma toLowerChar_eq_sign: "toLowerChar x = CHR ''='' \<longleftrightarrow> x = CHR ''=''"
  by (rule toLowerChar_eq_nonletter) (rule special_not_letter)

lemma toLowerChar_minus: "toLowerChar x = CHR ''-'' \<longleftrightarrow> x = CHR ''-''"
  by (rule toLowerChar_eq_nonletter) (rule special_not_letter)

lemma is_host_char_lower: "is_host_char (toLowerChar c) = is_host_char c"
  by (simp add: is_host_char_def is_alnum_lower toLowerChar_minus)

lemma valid_label_lower: "valid_label l \<Longrightarrow> valid_label (toLowerCase l)"
  by (simp add: valid_label_def toLowerCase_idem)
     (simp add: toLowerCase_def list_all_iff is_host_char_lower)

lemma valid_host_lower:
  assumes "valid_host h"
  shows "valid_host (toLowerCase h)"
proof -
  let ?ls = "split_on (CHR ''.'') h"
  have sp: "split_on (CHR ''.'') (toLowerCase h) = map toLowerCase ?ls"
    unfolding toLowerCase_def using split_on_map[of toLowerChar "CHR ''.''" h] toLowerChar_dot
    by simp
  have ne: "?ls \<noteq> []" by (rule split_on_not_Nil)
  from assms have all: "list_all valid_label ?ls" and le: "is_letter (hd (last ?ls))"
    by (simp_all add: valid_host_def Let_def)
  have "last ?ls \<in> set ?ls" using ne by simp
  then have lne: "last ?ls \<noteq> []" using all by (auto simp: list_all_iff valid_label_def)
  have "last (map toLowerCase ?ls) = toLowerCase (last ?ls)"
    using ne by (simp add: last_map)
  then have "hd (last (map toLowerCase ?ls)) = toLowerChar (hd (last ?ls))"
    using lne by (simp add: toLowerCase_def hd_map)
  then have "is_letter (hd (last (map toLowerCase ?ls)))"
    using le by (simp add: is_letter_lower)
  moreover have "list_all valid_label (map toLowerCase ?ls)"
    using all by (auto simp: list_all_iff valid_label_lower)
  ultimately show ?thesis by (simp add: valid_host_def Let_def sp)
qed

lemma valid_path_root: "valid_path ''/''"
  by (simp add: valid_path_def is_path_char_def)

lemma takeWhile_dropWhile_hd:
  assumes "takeWhile Q (dropWhile P xs) \<noteq> []"
  shows "\<not> P (hd (takeWhile Q (dropWhile P xs)))"
proof -
  from assms have d: "dropWhile P xs \<noteq> []" by (metis takeWhile.simps(1))
  then have "\<not> P (hd (dropWhile P xs))" by (rule hd_dropWhile)
  moreover have "hd (takeWhile Q (dropWhile P xs)) = hd (dropWhile P xs)"
    using assms by (cases "dropWhile P xs") (auto split: if_splits)
  ultimately show ?thesis by simp
qed

lemma parse_wf:
  assumes "URL_parse s = Some u"
  shows "wf_url u"
proof -
  define auth where "auth = takeWhile (\<lambda>c. \<not> is_authority_end c)
      (drop 3 (dropWhile (\<lambda>c. c \<noteq> CHR '':'') s))"
  define path where "path = takeWhile (\<lambda>c. \<not> is_path_end c)
      (dropWhile (\<lambda>c. \<not> is_authority_end c) (drop 3 (dropWhile (\<lambda>c. c \<noteq> CHR '':'') s)))"
  from assms have
    sch: "scheme u = ''http'' \<or> scheme u = ''https''"
    and h: "hostname u = toLowerCase auth" "valid_host auth"
    and p: "pathname u = (if path = [] then ''/'' else path)" "valid_path path"
    and q: "valid_query (query u)" and f: "valid_fragment (fragment u)"
    unfolding URL_parse_def Let_def auth_def path_def
    by (auto split: if_splits)
  have sw: "startsWith ''/'' (pathname u)"
  proof (cases "path = []")
    case True
    then show ?thesis using p by simp
  next
    case False
    then have "\<not> \<not> is_authority_end (hd path)"
      unfolding path_def by (rule takeWhile_dropWhile_hd)
    moreover have "\<not> is_path_end (hd path)"
      using False unfolding path_def
      by (metis (mono_tags, lifting) hd_in_set set_takeWhileD)
    ultimately have "hd path = CHR ''/''"
      by (auto simp: is_authority_end_def is_path_end_def)
    then show ?thesis using False p by (simp add: startsWith_Cons)
  qed
  have vp: "valid_path (pathname u)"
    using p valid_path_root by auto
  show ?thesis
    using sch h sw vp q f by (simp add: wf_url_def valid_host_lower toLowerCase_idem)
qed


subsection \<open>Lower-casing a serialized URL\<close>

text \<open>
  Lower-casing the serialization lower-cases the path, the query and the fragment; the
  scheme and the host are in lower case already.
\<close>

definition lower_url :: "URL \<Rightarrow> URL" where
  "lower_url u =
     u\<lparr>pathname := toLowerCase (pathname u),
       query := map_option toLowerCase (query u),
       fragment := map_option toLowerCase (fragment u)\<rparr>"

lemma upper_is_alnum: "c \<in> set upper_letters \<Longrightarrow> is_alnum c \<and> is_alnum (toLowerChar c)"
  by (simp add: is_alnum_lower) (simp add: is_alnum_def is_letter_def)

lemma lower_invariant:
  assumes "\<And>c. is_alnum c \<Longrightarrow> P c"
  shows "P (toLowerChar c) = P c"
proof (cases "c \<in> set upper_letters")
  case True
  then show ?thesis using upper_is_alnum assms by blast
next
  case False
  then show ?thesis by (simp add: toLowerChar_not_upper)
qed

lemma is_path_char_lower: "is_path_char (toLowerChar c) = is_path_char c"
  by (rule lower_invariant) (simp add: is_path_char_def)

lemma is_query_char_lower: "is_query_char (toLowerChar c) = is_query_char c"
  by (rule lower_invariant) (simp add: is_query_char_def)

lemma is_fragment_char_lower: "is_fragment_char (toLowerChar c) = is_fragment_char c"
  by (rule lower_invariant) (simp add: is_fragment_char_def is_path_char_def)

lemma toLowerCase_eq_dots:
  "toLowerCase seg = ''.'' \<longleftrightarrow> seg = ''.''" "toLowerCase seg = ''..'' \<longleftrightarrow> seg = ''..''"
  by (auto simp: toLowerCase_def toLowerChar_dot)

lemma split_on_slash_lower:
  "split_on (CHR ''/'') (toLowerCase p) = map toLowerCase (split_on (CHR ''/'') p)"
  unfolding toLowerCase_def using split_on_map[of toLowerChar "CHR ''/''" p] toLowerChar_slash
  by simp

lemma valid_path_lower: "valid_path p \<Longrightarrow> valid_path (toLowerCase p)"
  unfolding valid_path_def split_on_slash_lower
  by (simp add: list_all_iff toLowerCase_eq_dots)
     (simp add: toLowerCase_def is_path_char_lower)

lemma startsWith_slash_lower: "startsWith ''/'' (toLowerCase p) = startsWith ''/'' p"
proof (cases p)
  case Nil
  then show ?thesis by (simp add: toLowerCase_def)
next
  case (Cons a as)
  then show ?thesis using toLowerChar_slash[of a] by (auto simp: toLowerCase_def)
qed

lemma split_pair_snd_lower:
  "snd (split_pair (toLowerCase s)) = toLowerCase (snd (split_pair s))"
proof -
  have e: "(\<lambda>c. c \<noteq> CHR ''='') \<circ> toLowerChar = (\<lambda>c. c \<noteq> CHR ''='')"
    by (simp add: fun_eq_iff toLowerChar_eq_sign)
  show ?thesis
    by (simp add: split_pair_def toLowerCase_def dropWhile_map e drop_map)
qed

lemma eq_sign_lower: "CHR ''='' \<in> set (toLowerCase s) \<longleftrightarrow> CHR ''='' \<in> set s"
proof -
  have "CHR ''='' \<in> toLowerChar ` set s \<longleftrightarrow> CHR ''='' \<in> set s"
    using toLowerChar_eq_sign by (metis (no_types) image_iff)
  then show ?thesis by (simp add: toLowerCase_def)
qed

lemma valid_query_lower: "valid_query q \<Longrightarrow> valid_query (map_option toLowerCase q)"
proof (cases q)
  case None
  then show ?thesis by (simp add: valid_query_def)
next
  case (Some s)
  assume v: "valid_query q"
  have sp: "split_on (CHR ''&'') (toLowerCase s) = map toLowerCase (split_on (CHR ''&'') s)"
    unfolding toLowerCase_def using split_on_map[of toLowerChar "CHR ''&''" s] toLowerChar_amp
    by simp
  have "list_all is_query_char (toLowerCase s)"
    using v Some by (simp add: valid_query_def toLowerCase_def list_all_iff is_query_char_lower)
  moreover have "list_all (\<lambda>piece. CHR ''='' \<notin> set (snd (split_pair piece)))
                   (split_on (CHR ''&'') (toLowerCase s))"
    using v Some
    by (simp add: valid_query_def sp list_all_iff split_pair_snd_lower eq_sign_lower)
  ultimately show ?thesis using Some by (simp add: valid_query_def)
qed

lemma valid_fragment_lower: "valid_fragment f \<Longrightarrow> valid_fragment (map_option toLowerCase f)"
  by (cases f)
     (simp_all add: valid_fragment_def toLowerCase_def list_all_iff is_fragment_char_lower)

lemma wf_lower_url: "wf_url u \<Longrightarrow> wf_url (lower_url u)"
  unfolding wf_url_def lower_url_def
  by (simp add: valid_path_lower startsWith_slash_lower valid_query_lower valid_fragment_lower)

lemma lower_href:
  assumes "wf_url u"
  shows "toLowerCase (href u) = href (lower_url u)"
proof -
  have s: "toLowerCase (scheme u) = scheme u"
    using assms
    by (auto simp: wf_url_def toLowerCase_def toLowerChar_def upper_letters_def lower_letters_def)
  have h: "toLowerCase (hostname u) = hostname u"
    using assms by (simp add: wf_url_def)
  have c: "toLowerChar (CHR ''?'') = CHR ''?''" "toLowerChar (CHR ''#'') = CHR ''#''"
    "toLowerCase ''://'' = ''://''"
    by (simp_all add: toLowerCase_def toLowerChar_def upper_letters_def lower_letters_def)
  have "toLowerCase (href u) =
      toLowerCase (scheme u) @ toLowerCase ''://'' @ toLowerCase (hostname u)
        @ toLowerCase (pathname u)
        @ (case query u of None \<Rightarrow> [] | Some q \<Rightarrow> toLowerChar (CHR ''?'') # toLowerCase q)
        @ (case fragment u of None \<Rightarrow> [] | Some f \<Rightarrow> toLowerChar (CHR ''#'') # toLowerCase f)"
    by (simp add: href_def toLowerCase_def split: option.splits)
  then show ?thesis
    unfolding s h c by (simp add: href_def lower_url_def split: option.splits)
qed


subsection \<open>The path of a normalized URL\<close>

text \<open>
  \<open>path_parts\<close> are the non-empty segments that \<open>removeLanguagePrefix\<close> looks at,
  \<open>ensure_slash\<close> is what the \<^verbatim>\<open>pathname\<close> setter does to its argument, and
  \<open>normalize_path\<close> is the path after the two assignments of \<open>normalizeUrl\<close>.
\<close>

definition path_parts :: "string \<Rightarrow> string list" where
  "path_parts p = filter (\<lambda>s. s \<noteq> []) (split_on (CHR ''/'') p)"

definition has_language_prefix :: "string \<Rightarrow> bool" where
  "has_language_prefix p =
     (path_parts p \<noteq> [] \<and> toLowerCase (hd (path_parts p)) \<in> set LANGUAGE_CODES)"

lemma removeLanguagePrefix_eq:
  "removeLanguagePrefix p =
     (if has_language_prefix p then ''/'' @ join_with ''/'' (tl (path_parts p)) else p)"
  by (simp add: removeLanguagePrefix_def has_language_prefix_def path_parts_def Let_def)

definition ensure_slash :: "string \<Rightarrow> string" where
  "ensure_slash v = (if startsWith ''/'' v then v else CHR ''/'' # v)"

definition normalize_path :: "string \<Rightarrow> string" where
  "normalize_path p =
     ensure_slash (strip_trailing_slashes (ensure_slash (removeLanguagePrefix p)))"

lemma strip_decomp:
  "s = strip_trailing_slashes s
        @ replicate (length (takeWhile (\<lambda>c. c = CHR ''/'') (rev s))) (CHR ''/'')"
proof -
  let ?P = "\<lambda>c. c = CHR ''/''"
  have "rev s = takeWhile ?P (rev s) @ dropWhile ?P (rev s)" by simp
  then have "s = rev (dropWhile ?P (rev s)) @ rev (takeWhile ?P (rev s))"
    by (metis rev_append rev_rev_ident)
  moreover have "takeWhile ?P (rev s) = replicate (length (takeWhile ?P (rev s))) (CHR ''/'')"
    by (rule replicate_length_same[symmetric]) (auto dest: set_takeWhileD)
  ultimately show ?thesis
    by (metis rev_replicate strip_trailing_slashes_def)
qed



lemma strip_no_trailing: "t = [] \<or> last t \<noteq> CHR ''/'' \<Longrightarrow> strip_trailing_slashes t = t"
  by (cases t rule: rev_cases) (auto simp: strip_trailing_slashes_def)

lemma strip_result: "strip_trailing_slashes s = [] \<or> last (strip_trailing_slashes s) \<noteq> CHR ''/''"
proof (cases "dropWhile (\<lambda>c. c = CHR ''/'') (rev s) = []")
  case True
  then show ?thesis by (simp add: strip_trailing_slashes_def)
next
  case False
  then have "hd (dropWhile (\<lambda>c. c = CHR ''/'') (rev s)) \<noteq> CHR ''/''"
    using hd_dropWhile[of "\<lambda>c. c = CHR ''/''" "rev s"] by simp
  then show ?thesis using False by (simp add: strip_trailing_slashes_def last_rev)
qed

lemma strip_idem: "strip_trailing_slashes (strip_trailing_slashes s) = strip_trailing_slashes s"
  using strip_result[of s] by (rule strip_no_trailing)


lemma split_on_free: "x \<in> set (split_on c s) \<Longrightarrow> c \<notin> set x"
proof (induction s arbitrary: x)
  case Nil
  then show ?case by simp
next
  case (Cons a s)
  then show ?case using split_on_not_Nil[of c s]
    by (cases "split_on c s") (auto split: if_splits)
qed

lemma path_parts_clean: "x \<in> set (path_parts p) \<Longrightarrow> x \<noteq> [] \<and> CHR ''/'' \<notin> set x"
  by (auto simp: path_parts_def dest: split_on_free)

lemma path_parts_append_slashes: "path_parts (p @ replicate k (CHR ''/'')) = path_parts p"
proof (induction k)
  case 0
  then show ?case by simp
next
  case (Suc k)
  have e: "p @ replicate (Suc k) (CHR ''/'') = (p @ replicate k (CHR ''/'')) @ [CHR ''/'']"
    by (simp add: replicate_append_same)
  show ?case
    unfolding path_parts_def e split_on_snoc_sep using Suc by (simp add: path_parts_def)
qed





lemma path_parts_join:
  assumes "\<forall>x \<in> set xs. x \<noteq> [] \<and> CHR ''/'' \<notin> set x"
  shows "path_parts (''/'' @ join_with ''/'' xs) = xs"
proof (cases xs)
  case Nil
  then show ?thesis by (simp add: path_parts_def)
next
  case (Cons y ys)
  then have "split_on (CHR ''/'') (join_with ''/'' xs) = xs"
    using assms split_join[of xs "CHR ''/''"] by auto
  then show ?thesis using assms by (simp add: path_parts_def filter_id_conv)
qed








lemma in_set_tl: "x \<in> set (tl xs) \<Longrightarrow> x \<in> set xs"
  by (cases xs) auto


lemma startsWith_ensure_slash: "startsWith ''/'' (ensure_slash v)"
  by (simp add: ensure_slash_def)



lemma startsWith_normalize_path: "startsWith ''/'' (normalize_path p)"
  by (simp add: normalize_path_def startsWith_ensure_slash)





lemma path_parts_ensure_slash: "path_parts (ensure_slash v) = path_parts v"
  by (simp add: ensure_slash_def path_parts_def)

lemma path_parts_strip: "path_parts (strip_trailing_slashes s) = path_parts s"
  using path_parts_append_slashes[of "strip_trailing_slashes s"] strip_decomp[of s]
  by metis

lemma path_parts_removeLanguagePrefix:
  "set (path_parts (removeLanguagePrefix p)) \<subseteq> set (path_parts p)"
proof (cases "has_language_prefix p")
  case True
  have "path_parts (''/'' @ join_with ''/'' (tl (path_parts p))) = tl (path_parts p)"
    by (rule path_parts_join) (auto dest!: in_set_tl dest: path_parts_clean)
  then show ?thesis using True
    by (auto simp: removeLanguagePrefix_eq dest: in_set_tl)
next
  case False
  then show ?thesis by (simp add: removeLanguagePrefix_eq)
qed

lemma path_parts_normalize_path: "set (path_parts (normalize_path p)) \<subseteq> set (path_parts p)"
  using path_parts_removeLanguagePrefix[of p]
  by (simp add: normalize_path_def path_parts_ensure_slash path_parts_strip)

lemma valid_path_iff:
  "valid_path p \<longleftrightarrow>
     list_all is_path_char p \<and> (\<forall>x \<in> set (path_parts p). x \<noteq> ''.'' \<and> x \<noteq> ''..'')"
  by (auto simp: valid_path_def path_parts_def list_all_iff)

lemma chars_join_with: "set (join_with ''/'' xs) \<subseteq> insert (CHR ''/'') (\<Union>x \<in> set xs. set x)"
  by (cases xs) (auto simp: join_with_Cons)

lemma chars_path_parts: "x \<in> set (path_parts p) \<Longrightarrow> set x \<subseteq> set p"
proof -
  assume "x \<in> set (path_parts p)"
  then have "x \<in> set (split_on (CHR ''/'') p)" by (simp add: path_parts_def)
  moreover have "set (join_with ''/'' (split_on (CHR ''/'') p)) = set p"
    by (simp add: join_split)
  moreover have "set x \<subseteq> set (join_with ''/'' xs)" if "x \<in> set xs" for xs
    using that by (cases xs) (auto simp: join_with_Cons)
  ultimately show ?thesis by metis
qed

lemma chars_removeLanguagePrefix:
  "set (removeLanguagePrefix p) \<subseteq> insert (CHR ''/'') (set p)"
proof (cases "has_language_prefix p")
  case True
  have "set (join_with ''/'' (tl (path_parts p))) \<subseteq> insert (CHR ''/'') (set p)"
    using chars_join_with[of "tl (path_parts p)"] chars_path_parts[of _ p]
    by (fastforce dest: in_set_tl)
  then show ?thesis using True by (auto simp: removeLanguagePrefix_eq)
next
  case False
  then show ?thesis by (auto simp: removeLanguagePrefix_eq)
qed

lemma chars_strip: "set (strip_trailing_slashes s) \<subseteq> set s"
  using strip_decomp[of s] by (metis Un_upper1 set_append)

lemma chars_ensure_slash: "set (ensure_slash v) \<subseteq> insert (CHR ''/'') (set v)"
  by (auto simp: ensure_slash_def)

lemma chars_normalize_path: "set (normalize_path p) \<subseteq> insert (CHR ''/'') (set p)"
proof -
  have "set (normalize_path p)
        \<subseteq> insert (CHR ''/'') (set (strip_trailing_slashes (ensure_slash (removeLanguagePrefix p))))"
    unfolding normalize_path_def by (rule chars_ensure_slash)
  also have "\<dots> \<subseteq> insert (CHR ''/'') (set (ensure_slash (removeLanguagePrefix p)))"
    using chars_strip by blast
  also have "\<dots> \<subseteq> insert (CHR ''/'') (set (removeLanguagePrefix p))"
    using chars_ensure_slash by blast
  also have "\<dots> \<subseteq> insert (CHR ''/'') (set p)"
    using chars_removeLanguagePrefix by blast
  finally show ?thesis .
qed

lemma valid_normalize_path:
  assumes "valid_path p"
  shows "valid_path (normalize_path p)"
proof -
  have "is_path_char (CHR ''/'')" by (simp add: is_path_char_def)
  then have "list_all is_path_char (normalize_path p)"
    using assms chars_normalize_path[of p] by (auto simp: valid_path_iff list_all_iff)
  then show ?thesis
    using assms path_parts_normalize_path[of p] by (auto simp: valid_path_iff)
qed


subsection \<open>The query of a normalized URL\<close>

text \<open>
  \<open>entries_of\<close> is \<open>searchParams\<close> on the query alone, \<open>sort_params\<close> the sort of
  \<open>normalizeUrl\<close> and \<open>normalize_query\<close> the query after the assignment to
  \<^verbatim>\<open>url.search\<close>.
\<close>

definition entries_of :: "string option \<Rightarrow> (string \<times> string) list" where
  "entries_of q =
     (case q of None \<Rightarrow> []
      | Some s \<Rightarrow> map split_pair (filter (\<lambda>s. s \<noteq> []) (split_on (CHR ''&'') s)))"

definition sort_params :: "(string \<times> string) list \<Rightarrow> (string \<times> string) list" where
  "sort_params es = sort_key (\<lambda>p. collation_key (fst p)) es"

definition normalize_query :: "string option \<Rightarrow> string option" where
  "normalize_query q =
     (let v = URLSearchParams_toString (sort_params (entries_of q))
      in if v = [] then None else Some (if startsWith ''?'' v then tl v else v))"

text \<open>Names and values of query characters, without \<^verbatim>\<open>=\<close> and \<^verbatim>\<open>&\<close>.\<close>

definition clean_entry :: "string \<times> string \<Rightarrow> bool" where
  "clean_entry e =
     (CHR ''='' \<notin> set (fst e) \<and> CHR ''&'' \<notin> set (fst e)
      \<and> CHR ''='' \<notin> set (snd e) \<and> CHR ''&'' \<notin> set (snd e)
      \<and> list_all is_query_char (fst e) \<and> list_all is_query_char (snd e))"

lemma searchParams_eq: "searchParams u = entries_of (query u)"
  by (simp add: searchParams_def entries_of_def)

lemma split_pair_clean:
  assumes "CHR ''&'' \<notin> set s" "list_all is_query_char s"
    and "CHR ''='' \<notin> set (snd (split_pair s))"
  shows "clean_entry (split_pair s)"
proof -
  have "set (takeWhile (\<lambda>c. c \<noteq> CHR ''='') s) \<subseteq> set s"
    by (auto dest: set_takeWhileD)
  moreover have "set (drop 1 (dropWhile (\<lambda>c. c \<noteq> CHR ''='') s)) \<subseteq> set s"
    by (meson set_drop_subset set_dropWhileD subset_iff)
  moreover have "CHR ''='' \<notin> set (takeWhile (\<lambda>c. c \<noteq> CHR ''='') s)"
    by (auto dest: set_takeWhileD)
  ultimately show ?thesis
    using assms by (auto simp: clean_entry_def split_pair_def list_all_iff)
qed

lemma entries_of_clean:
  assumes "valid_query q" "e \<in> set (entries_of q)"
  shows "clean_entry e"
proof (cases q)
  case None
  then show ?thesis using assms by (simp add: entries_of_def)
next
  case (Some s)
  then obtain piece where p: "piece \<in> set (split_on (CHR ''&'') s)" "e = split_pair piece"
    using assms(2) by (auto simp: entries_of_def)
  have "list_all (\<lambda>x. x = CHR ''&'' \<or> is_query_char x) s"
    using assms(1) Some by (simp add: valid_query_def list_all_iff)
  then have "list_all (list_all is_query_char) (split_on (CHR ''&'') s)"
    by (simp only: split_on_all)
  then have "list_all is_query_char piece" using p(1) by (simp add: list_all_iff)
  moreover have "CHR ''='' \<notin> set (snd (split_pair piece))"
    using assms(1) Some p(1) by (simp add: valid_query_def list_all_iff)
  ultimately show ?thesis
    using p split_on_free[of piece "CHR ''&''" s] by (simp add: split_pair_clean)
qed

lemma sort_params_set: "set (sort_params es) = set es"
  by (simp add: sort_params_def)

text \<open>
  The serialization of one parameter.
\<close>

definition piece_of :: "string \<times> string \<Rightarrow> string" where
  "piece_of e = fst e @ ''='' @ snd e"

text \<open>The serializer has nothing to encode in the names and values of the class.\<close>

lemma urlencoded_id:
  assumes "list_all is_query_char s" "CHR ''='' \<notin> set s" "CHR ''&'' \<notin> set s"
  shows "urlencoded s = s"
  using assms
proof (induction s)
  case Nil
  then show ?case by (simp add: urlencoded_def)
next
  case (Cons c s)
  have "is_alnum c \<or> c \<in> set ''*-._''"
    using Cons.prems by (auto simp: is_query_char_def)
  moreover have "urlencoded s = s" using Cons by simp
  ultimately show ?case by (simp add: urlencoded_def)
qed

text \<open>
  A \<^verbatim>\<open>=\<close> in a value and a space are written as escapes. This is why a query with a
  \<^verbatim>\<open>=\<close> in a value is outside the class: its key has a percent escape.
\<close>

lemma URLSearchParams_toString_escapes:
  "URLSearchParams_toString [(''token'', ''abc==''), (''q'', ''a b'')] = ''token=abc%3D%3D&q=a+b''"
  by code_simp

lemma value_with_equals_sign: "URL_parse ''https://a.com/?token=abc=='' = None"
  by code_simp

lemma URLSearchParams_toString_eq:
  assumes "\<forall>e \<in> set es. clean_entry e"
  shows "URLSearchParams_toString es = join_with ''&'' (map piece_of es)"
proof -
  have "(case e of (k, v) \<Rightarrow> urlencoded k @ ''='' @ urlencoded v) = piece_of e"
    if "e \<in> set es" for e
    using assms that by (cases e) (auto simp: piece_of_def clean_entry_def urlencoded_id)
  then have "map (\<lambda>e. case e of (k, v) \<Rightarrow> urlencoded k @ ''='' @ urlencoded v) es
             = map piece_of es"
    by (intro map_cong refl)
  then show ?thesis by (simp only: URLSearchParams_toString_def)
qed

lemma takeWhile_until:
  "c \<notin> set xs \<Longrightarrow> takeWhile (\<lambda>x. x \<noteq> c) (xs @ c # ys) = xs"
  "c \<notin> set xs \<Longrightarrow> dropWhile (\<lambda>x. x \<noteq> c) (xs @ c # ys) = c # ys"
  by (induction xs) auto

lemma split_pair_piece: "CHR ''='' \<notin> set (fst e) \<Longrightarrow> split_pair (piece_of e) = e"
  by (simp add: split_pair_def piece_of_def takeWhile_until)

lemma serialize_Nil_iff: "URLSearchParams_toString es = [] \<longleftrightarrow> es = []"
  by (cases es) (auto simp: URLSearchParams_toString_def join_with_Cons)


lemma all_join_with:
  assumes "list_all P sep" "\<forall>x \<in> set xs. list_all P x"
  shows "list_all P (join_with sep xs)"
proof (cases xs)
  case Nil
  then show ?thesis by simp
next
  case (Cons y ys)
  have "list_all P (concat (map (\<lambda>z. sep @ z) zs))" if "\<forall>x \<in> set zs. list_all P x" for zs
    using that assms(1) by (induction zs) simp_all
  then show ?thesis using assms(2) unfolding Cons by (simp add: join_with_Cons)
qed

lemma question_not_query_char: "\<not> is_query_char (CHR ''?'')"
  using special_not_alnum by (simp add: is_query_char_def)

lemma chars_serialize:
  assumes "\<forall>e \<in> set es. clean_entry e"
  shows "list_all is_query_char (URLSearchParams_toString es)"
proof (cases es)
  case Nil
  then show ?thesis by (simp add: URLSearchParams_toString_def)
next
  case (Cons e es')
  have q: "is_query_char (CHR ''='')" "is_query_char (CHR ''&'')"
    by (simp_all add: is_query_char_def)
  have "list_all is_query_char (piece_of x)" if "x \<in> set es" for x
    using assms that q by (simp add: clean_entry_def piece_of_def)
  then have "\<forall>x \<in> set (map piece_of es). list_all is_query_char x" by simp
  then show ?thesis
    using q unfolding URLSearchParams_toString_eq[OF assms] by (intro all_join_with) simp_all
qed

lemma valid_serialize:
  assumes "\<forall>e \<in> set es. clean_entry e"
  shows "valid_query (Some (URLSearchParams_toString es))"
proof (cases "es = []")
  case True
  then show ?thesis by (simp add: valid_query_def URLSearchParams_toString_def split_pair_def)
next
  case False
  have free: "\<forall>x \<in> set (map piece_of es). CHR ''&'' \<notin> set x"
    using assms by (auto simp: clean_entry_def piece_of_def)
  have "split_on (CHR ''&'') (join_with ''&'' (map piece_of es)) = map piece_of es"
    using split_join[of "map piece_of es" "CHR ''&''"] free False by simp
  moreover have "CHR ''='' \<notin> set (snd (split_pair (piece_of e)))" if "e \<in> set es" for e
    using assms that by (simp add: split_pair_piece clean_entry_def)
  ultimately have "list_all (\<lambda>piece. CHR ''='' \<notin> set (snd (split_pair piece)))
                     (split_on (CHR ''&'') (URLSearchParams_toString es))"
    by (simp add: URLSearchParams_toString_eq[OF assms] list_all_iff)
  then show ?thesis using chars_serialize[OF assms] by (simp add: valid_query_def)
qed

lemma normalize_query_eq:
  assumes "valid_query q"
  shows "normalize_query q =
     (if entries_of q = [] then None
      else Some (URLSearchParams_toString (sort_params (entries_of q))))"
proof -
  let ?es = "sort_params (entries_of q)"
  have c: "\<forall>e \<in> set ?es. clean_entry e"
    using assms entries_of_clean by (simp add: sort_params_set)
  have "\<not> startsWith ''?'' (URLSearchParams_toString ?es)"
    using chars_serialize[OF c] question_not_query_char
    by (cases "URLSearchParams_toString ?es") (auto simp: list_all_iff)
  moreover have "?es = [] \<longleftrightarrow> entries_of q = []"
    by (metis sort_params_set set_empty)
  ultimately show ?thesis
    by (simp add: normalize_query_def Let_def serialize_Nil_iff)
qed

lemma valid_normalize_query:
  assumes "valid_query q"
  shows "valid_query (normalize_query q)"
proof (cases "entries_of q = []")
  case True
  then show ?thesis using assms by (simp add: normalize_query_eq valid_query_def)
next
  case False
  have "\<forall>e \<in> set (sort_params (entries_of q)). clean_entry e"
    using assms entries_of_clean by (simp add: sort_params_set)
  then show ?thesis using assms False by (simp add: normalize_query_eq valid_serialize)
qed


subsection \<open>Sorting and lower case\<close>
















subsection \<open>The normal form\<close>

text \<open>
  The URL object at the end of \<open>normalizeUrl\<close>, before it is serialized and
  lower-cased.
\<close>

definition canonical :: "URL \<Rightarrow> URL" where
  "canonical u =
     u\<lparr>pathname := normalize_path (pathname u),
       query := normalize_query (query u),
       fragment := None\<rparr>"

lemma normalizeUrl_eq:
  "normalizeUrl s =
     (case URL_parse s of
        None \<Rightarrow> Inl (Error (''Invalid URL: '' @ s))
      | Some u \<Rightarrow> Inr (toLowerCase (href (canonical u))))"
proof (cases "URL_parse s")
  case None
  then show ?thesis by (simp add: normalizeUrl_def)
next
  case (Some u)
  let ?u2 = "set_pathname (set_hash u []) (removeLanguagePrefix (pathname (set_hash u [])))"
  let ?u3 = "set_pathname ?u2 (strip_trailing_slashes (pathname ?u2))"
  have p: "pathname ?u3 = normalize_path (pathname u)"
    by (simp add: set_pathname_def set_hash_def normalize_path_def ensure_slash_def)
  have q: "query ?u3 = query u" by (simp add: set_pathname_def set_hash_def)
  have "set_search ?u3 (URLSearchParams_toString
          (sort_key (\<lambda>p. collation_key (fst p)) (searchParams ?u3))) = canonical u"
    unfolding searchParams_eq q
    by (simp add: set_search_def canonical_def normalize_query_def sort_params_def Let_def
          set_pathname_def set_hash_def normalize_path_def ensure_slash_def)
  then show ?thesis using Some by (simp add: normalizeUrl_def Let_def)
qed

lemma wf_canonical: "wf_url u \<Longrightarrow> wf_url (canonical u)"
  by (simp add: wf_url_def canonical_def valid_normalize_path startsWith_normalize_path
        valid_normalize_query valid_fragment_def)

lemma normalizeUrl_parse:
  assumes "URL_parse s = Some u"
  shows "normalizeUrl s = Inr (href (lower_url (canonical u)))"
    and "URL_parse (href (lower_url (canonical u))) = Some (lower_url (canonical u))"
proof -
  have w: "wf_url (canonical u)" using assms by (simp add: parse_wf wf_canonical)
  show "normalizeUrl s = Inr (href (lower_url (canonical u)))"
    using assms by (simp add: normalizeUrl_eq lower_href[OF w])
  show "URL_parse (href (lower_url (canonical u))) = Some (lower_url (canonical u))"
    using w by (simp add: parse_href wf_lower_url)
qed

lemma hostname_normal_form [simp]: "hostname (lower_url (canonical u)) = hostname u"
  by (simp add: lower_url_def canonical_def)






subsection \<open>Sorted lists with different keys\<close>

















subsection \<open>Differences that the normal form ignores\<close>






lemma path_parts_slash: "path_parts (CHR ''/'' # s) = path_parts s"
  by (simp add: path_parts_def)
















section \<open>The domain of a run\<close>

text \<open>
  The string \<open>normalizeUrl\<close> returns has the host of its argument, and the two crawlers
  queue a link only when its normalized form has the host of the start URL. So all
  URLs that a run marks as visited, queues, renders or classifies are on the domain of
  the start URL.
\<close>

lemma normalizeUrl_hostname:
  assumes "normalizeUrl s = Inr n"
  shows "\<exists>u v. URL_parse s = Some u \<and> URL_parse n = Some v \<and> hostname v = hostname u"
proof -
  obtain u where u: "URL_parse s = Some u"
    using assms by (cases "URL_parse s") (simp_all add: normalizeUrl_def)
  have "n = href (lower_url (canonical u))"
    using normalizeUrl_parse(1)[OF u] assms by simp
  then have "URL_parse n = Some (lower_url (canonical u))"
    using normalizeUrl_parse(2)[OF u] by simp
  then show ?thesis using u by simp
qed

lemma isSameDomain_iff:
  "isSameDomain s t \<longleftrightarrow> isValidUrl s \<and> isValidUrl t \<and> getBaseDomain t = getBaseDomain s"
  by (auto simp: isSameDomain_def isValidUrl_def getBaseDomain_def split: option.splits)

lemma normalizeUrl_same_domain:
  assumes "normalizeUrl s = Inr n"
  shows "isSameDomain s n"
  using normalizeUrl_hostname[OF assms] by (auto simp: isSameDomain_def)

lemma resolve_normalized_valid: "resolve_normalized l bu = Some n \<Longrightarrow> isValidUrl n"
  using normalizeUrl_same_domain
  by (auto simp: resolve_normalized_def isSameDomain_iff split: option.splits sum.splits)

lemma relevant_link_domain:
  assumes "isValidUrl s" "relevant_link (getBaseDomain s) bu l = Some n"
  shows "isSameDomain s n"
  using assms resolve_normalized_valid[of l bu]
  by (auto simp: relevant_link_def isSameDomain_iff split: option.splits if_splits)

lemma allRelevantLinks_domain:
  assumes "isValidUrl s" "n \<in> set (allRelevantLinks_of (getBaseDomain s) bu vs pa)"
  shows "isSameDomain s n"
  using assms relevant_link_domain[OF assms(1), of bu]
  by (auto simp: allRelevantLinks_of_def split: option.splits if_splits)

text \<open>The invariant of the loop of \<^verbatim>\<open>crawler.ts\<close>, and of the batched loop below.\<close>

definition domain_inv :: "string \<Rightarrow> crawl_state \<Rightarrow> bool" where
  "domain_inv s st =
     (list_all (isSameDomain s) (visited st) \<and> list_all (isSameDomain s) (pending st)
      \<and> list_all (\<lambda>c. isSameDomain s (call_url c)) (calls st))"

lemma enqueue_domain:
  "domain_inv s st \<Longrightarrow> isSameDomain s l \<Longrightarrow> domain_inv s (enqueue l st)"
  by (simp add: domain_inv_def enqueue_def)

lemma fold_enqueue_domain:
  "domain_inv s st \<Longrightarrow> \<forall>l \<in> set ls. isSameDomain s l \<Longrightarrow> domain_inv s (fold enqueue ls st)"
  by (induction ls arbitrary: st) (simp_all add: enqueue_domain)

lemma add_product_domain: "domain_inv s (add_product p n st) = domain_inv s st"
  by (simp add: domain_inv_def add_product_def)

lemma integrate_domain:
  assumes "isValidUrl s" "domain_inv s st"
  shows "domain_inv s (integrate (getBaseDomain s) bu c pa st)"
proof -
  have "\<forall>l \<in> set (allRelevantLinks_of (getBaseDomain s) bu (visited st) pa). isSameDomain s l"
    using allRelevantLinks_domain[OF assms(1)] by blast
  then show ?thesis
    using assms(2)
    by (auto simp: integrate_def Let_def add_product_domain add_product_shape
          intro!: fold_enqueue_domain split: sum.splits)
qed

lemma process_page_domain:
  assumes "isValidUrl s" "domain_inv s st" "isSameDomain s c"
  shows "domain_inv s (process_page w (getBaseDomain s) c st)"
proof -
  have 1: "domain_inv s (st\<lparr>calls := calls st @ [Fetch c]\<rparr>)"
    using assms(2,3) by (simp add: domain_inv_def call_url_def)
  have 2: "domain_inv s (st\<lparr>calls := calls st @ [Fetch c, Analyze c]\<rparr>)"
    using assms(2,3) by (simp add: domain_inv_def call_url_def)
  show ?thesis
    unfolding process_page_def Let_def
    using 1 2 integrate_domain[OF assms(1) 2]
    by (auto split: sum.splits option.splits prod.splits)
qed

lemma crawl_body_domain:
  assumes "isValidUrl s" "domain_inv s st"
  shows "domain_inv s (crawl_body w (getBaseDomain s) n st)"
proof (cases "pending st")
  case Nil
  then show ?thesis using assms(2) by (simp add: crawl_body_def)
next
  case (Cons c rest)
  have 0: "domain_inv s (st\<lparr>pending := rest\<rparr>)" and c: "isSameDomain s c"
    using assms(2) Cons by (simp_all add: domain_inv_def)
  show ?thesis
    using Cons 0 process_page_domain[OF assms(1) 0 c]
    by (simp add: crawl_body_def Let_def)
qed

lemma crawl_loop_domain:
  assumes "isValidUrl s" "domain_inv s st"
  shows "domain_inv s (crawl_loop w (getBaseDomain s) n m st)"
  using crawl_loop_invariant[of "domain_inv s" st m w "getBaseDomain s" n]
    assms crawl_body_domain by blast

lemma initial_state_domain:
  "normalizeUrl s = Inr n \<Longrightarrow> domain_inv s (initial_state n)"
  by (simp add: domain_inv_def initial_state_def normalizeUrl_same_domain)


definition domain_invB :: "string \<Rightarrow> batch_state \<Rightarrow> bool" where
  "domain_invB s st =
     (list_all (isSameDomain s) (visitedB st)
      \<and> list_all (\<lambda>p. isSameDomain s (url p)) (pendingB st)
      \<and> list_all (\<lambda>c. isSameDomain s (call_url c)) (callsB st))"

lemma processNewUrls_domain:
  assumes "isValidUrl s" "e \<in> set (processNewUrls ls bu (getBaseDomain s) vs pa)"
  shows "isSameDomain s (url e)"
proof -
  obtain l nl p where "resolve_normalized l bu = Some nl" "getBaseDomain nl = getBaseDomain s"
    "e = \<lparr>url = nl, priority = p\<rparr>"
    using assms(2) unfolding processNewUrls_entry by blast
  then show ?thesis
    using assms(1) resolve_normalized_valid[of l bu nl] by (simp add: isSameDomain_iff)
qed

lemma enqueueB_domain:
  "domain_invB s st \<Longrightarrow> isSameDomain s (url e) \<Longrightarrow> domain_invB s (enqueueB e st)"
  by (simp add: domain_invB_def enqueueB_def)

lemma fold_enqueueB_domain:
  "domain_invB s st \<Longrightarrow> \<forall>e \<in> set es. isSameDomain s (url e)
     \<Longrightarrow> domain_invB s (fold enqueueB es st)"
  by (induction es arbitrary: st) (simp_all add: enqueueB_domain)

lemma add_productB_domain: "domain_invB s (add_productB p n st) = domain_invB s st"
  by (simp add: domain_invB_def add_productB_def)

lemma integrateB_domain:
  assumes "isValidUrl s" "domain_invB s st"
  shows "domain_invB s (integrateB (getBaseDomain s) bu u ls pa st)"
proof -
  have "\<forall>e \<in> set (processNewUrls ls bu (getBaseDomain s) (visitedB st) pa).
          isSameDomain s (url e)"
    using processNewUrls_domain[OF assms(1)] by blast
  then show ?thesis
    using assms(2)
    by (auto simp: integrateB_def add_productB_domain add_productB_shape
          intro!: fold_enqueueB_domain split: sum.splits)
qed

lemma cached_analysis_domain:
  assumes "domain_invB s st" "isSameDomain s u" "cached_analysis w u html links st = (pa, st1)"
  shows "domain_invB s st1"
  using assms
  by (auto simp: cached_analysis_def Let_def domain_invB_def call_url_def split: option.splits)

lemma complete_task_domain:
  assumes "isValidUrl s" "domain_invB s st" "isSameDomain s u"
  shows "domain_invB s (complete_task w (getBaseDomain s) u st)"
proof (cases "fetchPage w u")
  case (Inl e)
  then show ?thesis using assms(2) by (simp add: complete_task_def)
next
  case (Inr r)
  show ?thesis
  proof (cases r)
    case None
    then show ?thesis using Inr assms(2) by (simp add: complete_task_def)
  next
    case (Some t)
    obtain html links baseUrl where t: "t = (html, links, baseUrl)" by (cases t) auto
    obtain pa st1 where c: "cached_analysis w u html links st = (pa, st1)" by fastforce
    have "domain_invB s st1" using assms(2,3) c by (rule cached_analysis_domain)
    then have "domain_invB s (integrateB (getBaseDomain s) baseUrl u links pa st1)"
      using assms(1) by (intro integrateB_domain)
    then show ?thesis using Inr Some t c by (simp add: complete_task_def)
  qed
qed

lemma fold_complete_task_domain:
  "isValidUrl s \<Longrightarrow> domain_invB s st \<Longrightarrow> \<forall>u \<in> set us. isSameDomain s u
     \<Longrightarrow> domain_invB s (fold (complete_task w (getBaseDomain s)) us st)"
  by (induction us arbitrary: st) (simp_all add: complete_task_domain)

lemma batch_body_domain:
  assumes "isValidUrl s" "domain_invB s st"
  shows "domain_invB s (batch_body w (getBaseDomain s) st)"
proof -
  define sorted' where "sorted' = sort_by_priority (pendingB st)"
  define tasks where "tasks = filter (\<lambda>u. \<not> isResourceUrl u)
                  (map url (concat (chunk (take BATCH_SIZE sorted') CONCURRENT_CRAWLS)))"
  define st1 where "st1 = st\<lparr>pendingB := drop BATCH_SIZE sorted',
                              callsB := callsB st @ map Fetch tasks\<rparr>"
  have p: "\<forall>e \<in> set sorted'. isSameDomain s (url e)"
    using assms(2) by (simp add: domain_invB_def sort_by_priority_def list_all_iff sorted'_def)
  have "concat (chunk (take BATCH_SIZE sorted') CONCURRENT_CRAWLS) = take BATCH_SIZE sorted'"
    by (simp add: concat_chunk CONCURRENT_CRAWLS_def)
  then have t: "\<forall>u \<in> set tasks. isSameDomain s u"
    using p by (auto simp: tasks_def dest: in_set_takeD)
  have d: "\<forall>e \<in> set (drop BATCH_SIZE sorted'). isSameDomain s (url e)"
    using p by (auto dest: in_set_dropD)
  have f: "list_all (\<lambda>c. isSameDomain s (call_url c)) (map Fetch tasks)"
    using t by (induction tasks) (simp_all add: call_url_def)
  have 1: "domain_invB s st1"
    using assms(2) d f by (auto simp: domain_invB_def st1_def list_all_iff)
  have "\<forall>u \<in> set (sort_key (finish w) tasks). isSameDomain s u"
    using t by simp
  then have "domain_invB s (fold (complete_task w (getBaseDomain s)) (sort_key (finish w) tasks) st1)"
    using assms(1) 1 by (intro fold_complete_task_domain)
  then show ?thesis
    by (simp add: batch_body_def Let_def st1_def tasks_def sorted'_def)
qed

lemma batch_loop_domain:
  assumes "isValidUrl s" "domain_invB s st"
  shows "domain_invB s (batch_loop w (getBaseDomain s) m st)"
  using batch_loop_invariant[of "domain_invB s" st m w "getBaseDomain s"]
    assms batch_body_domain by blast

lemma initial_stateB_domain:
  "normalizeUrl s = Inr n \<Longrightarrow> domain_invB s (initial_stateB n)"
  by (simp add: domain_invB_def initial_stateB_def normalizeUrl_same_domain)

lemma crawlWebsite_domain:
  "list_all (\<lambda>c. isSameDomain s (call_url c)) (snd (crawlWebsite w s m))"
  "fst (crawlWebsite w s m) = Inr r \<Longrightarrow> list_all (isSameDomain s) (visitedUrls r)"
proof -
  have *: "domain_inv s (crawl_loop w (getBaseDomain s) n m (initial_state n))"
    if "isValidUrl s" "normalizeUrl s = Inr n" for n
    using that by (intro crawl_loop_domain initial_state_domain)
  show "list_all (\<lambda>c. isSameDomain s (call_url c)) (snd (crawlWebsite w s m))"
    using * by (auto simp: crawlWebsite_def Let_def domain_inv_def
                split: sum.splits init.splits option.splits)
  show "list_all (isSameDomain s) (visitedUrls r)" if "fst (crawlWebsite w s m) = Inr r"
    using * that by (auto simp: crawlWebsite_def Let_def domain_inv_def
                split: sum.splits init.splits option.splits if_splits)
qed

lemma crawlWebsiteB_domain:
  "list_all (\<lambda>c. isSameDomain s (call_url c)) (snd (crawlWebsiteB w s m))"
  "fst (crawlWebsiteB w s m) = Inr r \<Longrightarrow> list_all (isSameDomain s) (visitedUrls r)"
proof -
  have *: "domain_invB s (batch_loop w (getBaseDomain s) m (initial_stateB n))"
    if "isValidUrl s" "normalizeUrl s = Inr n" for n
    using that by (intro batch_loop_domain initial_stateB_domain)
  show "list_all (\<lambda>c. isSameDomain s (call_url c)) (snd (crawlWebsiteB w s m))"
    using * by (auto simp: crawlWebsiteB_def Let_def domain_invB_def
                split: sum.splits init.splits option.splits)
  show "list_all (isSameDomain s) (visitedUrls r)" if "fst (crawlWebsiteB w s m) = Inr r"
    using * that by (auto simp: crawlWebsiteB_def Let_def domain_invB_def
                split: sum.splits init.splits option.splits if_splits)
qed

section \<open>The priorities of queued links\<close>

text \<open>
  The entries that the \<^verbatim>\<open>forEach\<close> loop over \<^verbatim>\<open>newUrls\<close> puts into the queue: of the
  entries with one URL the first, unless the URL is visited already.
\<close>

fun queued_of :: "string list \<Rightarrow> PendingUrl list \<Rightarrow> PendingUrl list" where
  "queued_of vs [] = []"
| "queued_of vs (e # es) =
     (if url e \<in> set vs then queued_of vs es else e # queued_of (vs @ [url e]) es)"

lemma fold_enqueueB_queued:
  "pendingB (fold enqueueB es st) = pendingB st @ queued_of (visitedB st) es
   \<and> visitedB (fold enqueueB es st) = visitedB st @ map url (queued_of (visitedB st) es)
   \<and> urlCache (fold enqueueB es st) = urlCache st"
proof (induction es arbitrary: st)
  case Nil
  then show ?case by simp
next
  case (Cons e es)
  show ?case
  proof (cases "url e \<in> set (visitedB st)")
    case True
    then have "enqueueB e st = st" by (simp add: enqueueB_def)
    then show ?thesis using Cons.IH[of st] True by simp
  next
    case False
    then have f: "visitedB (enqueueB e st) = visitedB st @ [url e]"
      "pendingB (enqueueB e st) = pendingB st @ [e]"
      "urlCache (enqueueB e st) = urlCache st"
      by (simp_all add: enqueueB_def)
    show ?thesis using Cons.IH[of "enqueueB e st"] False unfolding f by simp
  qed
qed

lemma queued_of_subset: "set (queued_of vs es) \<subseteq> set es"
  by (induction es arbitrary: vs) auto

lemma queued_of_first:
  assumes "sorted_wrt (\<lambda>x y. priority y \<le> priority x) es" "e \<in> set es" "url e \<notin> set vs"
  shows "\<exists>e' \<in> set (queued_of vs es). url e' = url e \<and> priority e \<le> priority e'"
  using assms
proof (induction es arbitrary: vs)
  case Nil
  then show ?case by simp
next
  case (Cons x es)
  show ?case
  proof (cases "url x \<in> set vs")
    case True
    then have "e \<in> set es" using Cons.prems(2,3) by auto
    then show ?thesis using Cons.IH[of vs] Cons.prems(1,3) True by simp
  next
    case False
    show ?thesis
    proof (cases "url e = url x")
      case True
      have "priority e \<le> priority x" using Cons.prems(1,2) by auto
      then show ?thesis using False True by auto
    next
      case n: False
      then have "e \<in> set es" "url e \<notin> set (vs @ [url x])" using Cons.prems(2,3) by auto
      then show ?thesis using Cons.IH[of "vs @ [url x]"] Cons.prems(1) False by auto
    qed
  qed
qed

lemma processUrl_priority:
  "e \<in> set (concat (map (\<lambda>l. processUrl bu bd vs l p) ls)) \<Longrightarrow> priority e = p"
  by (auto simp: processUrl_entry)

lemma same_priority_sorted:
  "\<forall>e \<in> set es. priority e = p \<Longrightarrow> sorted_wrt (\<lambda>x y. priority y \<le> priority x) es"
  by (induction es) auto

lemma processNewUrls_sorted:
  "sorted_wrt (\<lambda>x y. priority y \<le> priority x) (processNewUrls ls bu bd vs pa)"
proof -
  let ?part = "\<lambda>p xs. concat (map (\<lambda>l. processUrl bu bd vs l p) xs)"
  have s: "sorted_wrt (\<lambda>x y. priority y \<le> priority x) (?part p xs)" for p xs
    by (rule same_priority_sorted[of _ p]) (simp add: processUrl_priority)
  have p: "\<forall>e \<in> set (?part p xs). priority e = p" for p xs
    using processUrl_priority[of _ bu bd vs p xs] by blast
  show ?thesis
    unfolding processNewUrls_def sorted_wrt_append
    using s p[of 3] p[of 2] p[of 1] by (simp add: ball_Un)
qed


text \<open>What a page adds to the queue.\<close>

lemma add_productB_fields:
  "visitedB (add_productB p n st) = visitedB st" "pendingB (add_productB p n st) = pendingB st"
  "urlCache (add_productB p n st) = urlCache st"
  by (simp_all add: add_productB_def)

lemma integrateB_queue:
  assumes "isValidUrl u"
  shows "pendingB (integrateB b bu u links pa st)
         = pendingB st @ queued_of (visitedB st) (processNewUrls links bu b (visitedB st) pa)"
proof -
  obtain n where n: "normalizeUrl u = Inr n"
    using assms by (auto simp: isValidUrl_def normalizeUrl_def Let_def split: option.splits)
  show ?thesis
    unfolding integrateB_def
    using fold_enqueueB_queued[of "processNewUrls links bu b (visitedB st) pa" st]
      fold_enqueueB_queued[of "processNewUrls links bu b (visitedB st) pa"
        "add_productB (the (product pa)) n st"]
    by (simp add: n add_productB_fields)
qed

lemma integrateB_new:
  "\<exists>new. pendingB (integrateB b bu u links pa st) = pendingB st @ new
         \<and> set new \<subseteq> set (processNewUrls links bu b (visitedB st) pa)
         \<and> urlCache (integrateB b bu u links pa st) = urlCache st"
proof (cases "pageType pa = ''product'' \<and> product pa \<noteq> None")
  case False
  then show ?thesis
    unfolding integrateB_def
    using fold_enqueueB_queued[of "processNewUrls links bu b (visitedB st) pa" st]
      queued_of_subset[of "visitedB st" "processNewUrls links bu b (visitedB st) pa"]
    by auto
next
  case True
  show ?thesis
  proof (cases "normalizeUrl u")
    case (Inl e)
    then have "integrateB b bu u links pa st = st" using True by (simp add: integrateB_def)
    then show ?thesis by simp
  next
    case (Inr n)
    then show ?thesis
      unfolding integrateB_def
      using True
        fold_enqueueB_queued[of "processNewUrls links bu b (visitedB st) pa"
          "add_productB (the (product pa)) n st"]
        queued_of_subset[of "visitedB st" "processNewUrls links bu b (visitedB st) pa"]
      by (auto simp: add_productB_fields)
  qed
qed

text \<open>
  The analyses that an iteration adds to the cache are those of the pages it rendered,
  so a page is classified by what the cache held for it when the iteration began, or
  else by the classifier.
\<close>

definition rendered_analyses :: "world \<Rightarrow> (string \<times> PageAnalysis) list \<Rightarrow> bool" where
  "rendered_analyses w ext =
     (\<forall>(u, pa) \<in> set ext. \<exists>html links bu.
        fetchPage w u = Inr (Some (html, links, bu)) \<and> pa = analyzePageWithGemini w html u links)"

lemma cached_analysis_later:
  assumes "urlCache st' = urlCache st @ ext" "rendered_analyses w ext"
    and "fetchPage w u = Inr (Some (html, links, bu))"
  shows "fst (cached_analysis w u html links st') = fst (cached_analysis w u html links st)"
proof (cases "map_of (urlCache st) u")
  case (Some pa)
  then have "map_of (urlCache st') u = Some pa" using assms(1) by (simp add: map_add_Some_iff)
  then show ?thesis using Some by (simp add: cached_analysis_def)
next
  case None
  show ?thesis
  proof (cases "map_of ext u")
    case n: None
    then have "map_of (urlCache st') u = None" using assms(1) None by (simp add: map_add_def)
    then show ?thesis using None by (simp add: cached_analysis_def Let_def)
  next
    case (Some pa)
    then have "(u, pa) \<in> set ext" by (rule map_of_SomeD)
    then have "pa = analyzePageWithGemini w html u links"
      using assms(2,3) by (auto simp: rendered_analyses_def)
    moreover have "map_of (urlCache st') u = Some pa"
      using assms(1) Some None by (simp add: map_add_def)
    ultimately show ?thesis using None by (simp add: cached_analysis_def Let_def)
  qed
qed

lemma cached_analysis_cache:
  assumes "cached_analysis w u html links st' = (pa, st1)"
    and "fetchPage w u = Inr (Some (html, links, bu))"
  shows "pa = fst (cached_analysis w u html links st')
         \<and> visitedB st1 = visitedB st' \<and> pendingB st1 = pendingB st'
         \<and> (\<exists>ext. urlCache st1 = urlCache st' @ ext \<and> rendered_analyses w ext)"
proof (cases "map_of (urlCache st') u")
  case None
  then have "st1 = st'\<lparr>urlCache := urlCache st' @ [(u, analyzePageWithGemini w html u links)],
                       callsB := callsB st' @ [Analyze u]\<rparr>"
    using assms(1) by (auto simp: cached_analysis_def Let_def)
  then have "urlCache st1 = urlCache st' @ [(u, analyzePageWithGemini w html u links)]"
    "visitedB st1 = visitedB st'" "pendingB st1 = pendingB st'"
    by simp_all
  moreover have "rendered_analyses w [(u, analyzePageWithGemini w html u links)]"
    using assms(2) by (simp add: rendered_analyses_def)
  ultimately show ?thesis using assms(1) by (metis fst_conv)
next
  case (Some c)
  then have "st1 = st'" using assms(1) by (simp add: cached_analysis_def)
  moreover have "rendered_analyses w []" by (simp add: rendered_analyses_def)
  ultimately show ?thesis using assms(1) by (metis append_Nil2 fst_conv)
qed

lemma rendered_analyses_append:
  "rendered_analyses w a \<Longrightarrow> rendered_analyses w b \<Longrightarrow> rendered_analyses w (a @ b)"
  by (auto simp: rendered_analyses_def)

text \<open>The entries of one page: those of \<^verbatim>\<open>processNewUrls\<close> for its analysis.\<close>

definition entry_of_page :: "world \<Rightarrow> string \<Rightarrow> batch_state \<Rightarrow> string \<Rightarrow> PendingUrl \<Rightarrow> bool" where
  "entry_of_page w b st u e =
     (\<exists>html links bu vs.
        fetchPage w u = Inr (Some (html, links, bu))
        \<and> e \<in> set (processNewUrls links bu b vs (fst (cached_analysis w u html links st))))"

lemma complete_task_new:
  assumes "urlCache st' = urlCache st @ ext" "rendered_analyses w ext"
  shows "\<exists>new ext'. pendingB (complete_task w b u st') = pendingB st' @ new
           \<and> (\<forall>e \<in> set new. entry_of_page w b st u e)
           \<and> urlCache (complete_task w b u st') = urlCache st @ ext'
           \<and> rendered_analyses w ext'"
proof (cases "fetchPage w u")
  case (Inl e)
  then have "complete_task w b u st' = st'" by (simp add: complete_task_def)
  then show ?thesis using assms by auto
next
  case (Inr r)
  show ?thesis
  proof (cases r)
    case None
    then have "complete_task w b u st' = st'" using Inr by (simp add: complete_task_def)
    then show ?thesis using assms by auto
  next
    case (Some t)
    obtain html links bu where t: "t = (html, links, bu)" by (cases t) auto
    have f: "fetchPage w u = Inr (Some (html, links, bu))" using Inr Some t by simp
    obtain pa st1 where c: "cached_analysis w u html links st' = (pa, st1)" by fastforce
    from cached_analysis_cache[OF c f] obtain ext1 where
      1: "pa = fst (cached_analysis w u html links st')"
         "visitedB st1 = visitedB st'" "pendingB st1 = pendingB st'"
         "urlCache st1 = urlCache st' @ ext1" "rendered_analyses w ext1"
      by blast
    have pa: "pa = fst (cached_analysis w u html links st)"
      using 1(1) cached_analysis_later[OF assms f] by simp
    from integrateB_new[of b bu u links pa st1] obtain new where
      2: "pendingB (integrateB b bu u links pa st1) = pendingB st1 @ new"
         "set new \<subseteq> set (processNewUrls links bu b (visitedB st1) pa)"
         "urlCache (integrateB b bu u links pa st1) = urlCache st1"
      by blast
    have e: "complete_task w b u st' = integrateB b bu u links pa st1"
      using f c by (simp add: complete_task_def)
    have "\<forall>e \<in> set new. entry_of_page w b st u e"
      using 2(2) f pa unfolding entry_of_page_def by blast
    moreover have "urlCache (complete_task w b u st') = urlCache st @ (ext @ ext1)"
      using e 2(3) 1(4) assms(1) by simp
    moreover have "rendered_analyses w (ext @ ext1)"
      using assms(2) 1(5) by (rule rendered_analyses_append)
    ultimately show ?thesis using e 2(1) 1(3) by metis
  qed
qed

lemma fold_complete_task_new:
  assumes "urlCache st' = urlCache st @ ext" "rendered_analyses w ext"
  shows "\<exists>new. pendingB (fold (complete_task w b) us st') = pendingB st' @ new
           \<and> (\<forall>e \<in> set new. \<exists>u \<in> set us. entry_of_page w b st u e)"
  using assms
proof (induction us arbitrary: st' ext)
  case Nil
  then show ?case by simp
next
  case (Cons u us)
  from complete_task_new[OF Cons.prems, of b u] obtain n1 ext' where
    1: "pendingB (complete_task w b u st') = pendingB st' @ n1"
       "\<forall>e \<in> set n1. entry_of_page w b st u e"
       "urlCache (complete_task w b u st') = urlCache st @ ext'" "rendered_analyses w ext'"
    by blast
  from Cons.IH[OF 1(3,4)] obtain n2 where
    2: "pendingB (fold (complete_task w b) us (complete_task w b u st'))
          = pendingB (complete_task w b u st') @ n2"
       "\<forall>e \<in> set n2. \<exists>u \<in> set us. entry_of_page w b st u e"
    by blast
  have "pendingB (fold (complete_task w b) (u # us) st') = pendingB st' @ (n1 @ n2)"
    using 1(1) 2(1) by simp
  moreover have "\<forall>e \<in> set (n1 @ n2). \<exists>v \<in> set (u # us). entry_of_page w b st v e"
    using 1(2) 2(2) by auto
  ultimately show ?case by blast
qed

lemma entry_of_page_cache:
  "urlCache st1 = urlCache st \<Longrightarrow> entry_of_page w b st1 u e = entry_of_page w b st u e"
  by (simp add: entry_of_page_def cached_analysis_def Let_def split: option.splits)

lemma batch_body_new:
  "\<exists>new. pendingB (batch_body w b st) = drop BATCH_SIZE (sort_by_priority (pendingB st)) @ new
         \<and> (\<forall>e \<in> set new. \<exists>u \<in> set (map url (take BATCH_SIZE (sort_by_priority (pendingB st)))).
               entry_of_page w b st u e)"
proof -
  define sorted' where "sorted' = sort_by_priority (pendingB st)"
  define tasks where "tasks = filter (\<lambda>u. \<not> isResourceUrl u) (map url (take BATCH_SIZE sorted'))"
  define st1 where "st1 = st\<lparr>pendingB := drop BATCH_SIZE sorted',
                              callsB := callsB st @ map Fetch tasks\<rparr>"
  have b: "batch_body w b st = fold (complete_task w b) (sort_key (finish w) tasks) st1"
    unfolding batch_body_def Let_def st1_def tasks_def sorted'_def
    by (simp add: concat_chunk CONCURRENT_CRAWLS_def)
  have c: "urlCache st1 = urlCache st @ []" by (simp add: st1_def)
  have r: "rendered_analyses w []" by (simp add: rendered_analyses_def)
  from fold_complete_task_new[OF c r, of b "sort_key (finish w) tasks"] obtain new where
    n: "pendingB (fold (complete_task w b) (sort_key (finish w) tasks) st1) = pendingB st1 @ new"
       "\<forall>e \<in> set new. \<exists>u \<in> set (sort_key (finish w) tasks). entry_of_page w b st u e"
    by blast
  have "\<forall>e \<in> set new. \<exists>u \<in> set (map url (take BATCH_SIZE sorted')). entry_of_page w b st u e"
    using n(2) by (auto simp: tasks_def)
  moreover have "pendingB (batch_body w b st) = drop BATCH_SIZE sorted' @ new"
    using n(1) b by (simp add: st1_def)
  ultimately show ?thesis unfolding sorted'_def by blast
qed

section \<open>Example worlds\<close>

text \<open>
  A small shop: every page loads, the start page is a listing with a product link, a
  link to another host and a link to an information page, every other page is a
  product page.
\<close>

definition shop_world :: world where
  "shop_world =
     \<lparr> initBrowser_outcome = Ready, close_outcome = None,
       goto = (\<lambda>u. Response (Some 200) None (Inr (''<html></html>'', []))),
       model = (\<lambda>u html links.
                  if u = ''https://shop.example.com/''
                  then Json \<lparr> pageType = ''listing'', product = None,
                              productLinks = Some [''/p/1'', ''https://other.example.com/p/9''],
                              paginationLinks = None, categoryLinks = None,
                              otherRelevantLinks = Some [''/about''] \<rparr>
                  else Json \<lparr> pageType = ''product'',
                              product = Some \<lparr> name = ''Widget'', price = ''9.99'',
                                               description = ''A widget'', url = [],
                                               imageUrl = None \<rparr>,
                              productLinks = None, paginationLinks = None,
                              categoryLinks = None, otherRelevantLinks = None \<rparr>),
       finish = (\<lambda>u. 0) \<rparr>"

text \<open>The same shop on a machine where the browser cannot be launched.\<close>

definition no_browser_world :: world where
  "no_browser_world =
     shop_world\<lparr>initBrowser_outcome := LaunchThrows (Error ''Failed to launch the browser process'')\<rparr>"

text \<open>The first iteration of both versions in the small shop.\<close>

lemma shop_start_facts:
  "isValidUrl ''https://shop.example.com/''"
  "getBaseDomain ''https://shop.example.com/'' = ''shop.example.com''"
  "normalizeUrl ''https://shop.example.com/'' = Inr ''https://shop.example.com/''"
  by code_simp+

lemma shop_first_iteration:
  "crawl_body shop_world ''shop.example.com'' ''https://shop.example.com/''
     (initial_state ''https://shop.example.com/'') =
   \<lparr> visited = [''https://shop.example.com/'', ''https://shop.example.com/p/1'',
                 ''https://shop.example.com/about''],
     pending = [''https://shop.example.com/p/1'', ''https://shop.example.com/about''],
     collected = [], seenProducts = [],
     calls = [Fetch ''https://shop.example.com/'', Analyze ''https://shop.example.com/''] \<rparr>"
  by code_simp

lemma shop_first_batch:
  "batch_body shop_world ''shop.example.com'' (initial_stateB ''https://shop.example.com/'') =
   \<lparr> visitedB = [''https://shop.example.com/'', ''https://shop.example.com/p/1'',
                  ''https://shop.example.com/about''],
     pendingB = [\<lparr>url = ''https://shop.example.com/p/1'', priority = 3\<rparr>,
                 \<lparr>url = ''https://shop.example.com/about'', priority = 1\<rparr>],
     collectedB = [], seenProductsB = [],
     urlCache = [(''https://shop.example.com/'',
                  analyzePageWithGemini shop_world ''<html></html>'' ''https://shop.example.com/'' [])],
     callsB = [Fetch ''https://shop.example.com/'', Analyze ''https://shop.example.com/''] \<rparr>"
  by code_simp

text \<open>The information page of the shop is not a likely product or listing URL.\<close>

lemma about_not_likely:
  "\<not> isLikely (isLikelyProductOrListingUrl ''https://shop.example.com/about'')"
  "\<not> isResourceUrl ''https://shop.example.com/about''"
  by code_simp+

lemma shop_world_browser:
  "initBrowser_outcome shop_world = Ready" "close_outcome shop_world = None"
  by (simp_all add: shop_world_def)


text \<open>The second iteration fetches the product page and records the product.\<close>

definition shop_widget :: ProductData where
  "shop_widget =
     \<lparr> name = ''Widget'', price = ''9.99'', description = ''A widget'',
       url = ''https://shop.example.com/p/1'', imageUrl = None \<rparr>"

definition shop_state1 :: crawl_state where
  "shop_state1 =
     \<lparr> visited = [''https://shop.example.com/'', ''https://shop.example.com/p/1'',
                   ''https://shop.example.com/about''],
       pending = [''https://shop.example.com/p/1'', ''https://shop.example.com/about''],
       collected = [], seenProducts = [],
       calls = [Fetch ''https://shop.example.com/'', Analyze ''https://shop.example.com/''] \<rparr>"

definition shop_state2 :: crawl_state where
  "shop_state2 =
     \<lparr> visited = [''https://shop.example.com/'', ''https://shop.example.com/p/1'',
                   ''https://shop.example.com/about''],
       pending = [''https://shop.example.com/about''],
       collected = [shop_widget], seenProducts = [''https://shop.example.com/p/1''],
       calls = [Fetch ''https://shop.example.com/'', Analyze ''https://shop.example.com/'',
                Fetch ''https://shop.example.com/p/1'', Analyze ''https://shop.example.com/p/1''] \<rparr>"

lemma shop_second_iteration:
  "crawl_body shop_world ''shop.example.com'' ''https://shop.example.com/'' shop_state1 = shop_state2"
  by code_simp

lemma shop_third_iteration:
  "crawl_body shop_world ''shop.example.com'' ''https://shop.example.com/'' shop_state2
     = shop_state2\<lparr>pending := []\<rparr>"
  by (simp add: crawl_body_def shop_state2_def about_not_likely)

text \<open>With a budget of ten pages the run ends when the queue is empty.\<close>

lemma shop_run_10:
  "crawlWebsite shop_world ''https://shop.example.com/'' 10 =
     (Inr \<lparr>products = [shop_widget],
            visitedUrls = [''https://shop.example.com/'', ''https://shop.example.com/p/1'',
                           ''https://shop.example.com/about''],
            error = None\<rparr>,
      [Fetch ''https://shop.example.com/'', Analyze ''https://shop.example.com/'',
       Fetch ''https://shop.example.com/p/1'', Analyze ''https://shop.example.com/p/1''])"
proof -
  let ?s = "''https://shop.example.com/''"
  let ?loop = "crawl_loop shop_world ''shop.example.com'' ?s 10"
  have i1: "crawl_body shop_world ''shop.example.com'' ?s (initial_state ?s) = shop_state1"
    by (simp add: shop_first_iteration shop_state1_def)
  have c0: "continues 10 (initial_state ?s)"
    by (simp add: continues_def initial_state_def)
  have c1: "continues 10 shop_state1"
    by (simp add: continues_def shop_state1_def)
  have c2: "continues 10 shop_state2"
    by (simp add: continues_def shop_state2_def)
  have c3: "\<not> continues 10 (shop_state2\<lparr>pending := []\<rparr>)"
    by (simp add: continues_def)
  have "?loop (initial_state ?s) = ?loop shop_state1"
    using c0 i1 by (subst crawl_loop.simps) simp
  also have "\<dots> = ?loop shop_state2"
    using c1 shop_second_iteration by (subst crawl_loop.simps) simp
  also have "\<dots> = ?loop (shop_state2\<lparr>pending := []\<rparr>)"
    using c2 shop_third_iteration by (subst crawl_loop.simps) simp
  also have "\<dots> = shop_state2\<lparr>pending := []\<rparr>"
    using c3 by (subst crawl_loop.simps) simp
  finally have l: "?loop (initial_state ?s) = shop_state2\<lparr>pending := []\<rparr>" .
  have d: "deduplicateProducts [shop_widget] = [shop_widget]"
    by (simp add: deduplicateProducts_def unique_insert_def)
  show ?thesis
    unfolding crawlWebsite_def
    by (simp add: shop_start_facts l d shop_world_browser shop_state2_def)
qed

text \<open>The batched version with a budget of two pages: one batch, with the start page.\<close>

lemma shop_batch_run_2:
  "crawlWebsiteB shop_world ''https://shop.example.com/'' 2 =
     (Inr \<lparr>products = [],
            visitedUrls = [''https://shop.example.com/'', ''https://shop.example.com/p/1'',
                           ''https://shop.example.com/about''],
            error = None\<rparr>,
      [Fetch ''https://shop.example.com/'', Analyze ''https://shop.example.com/''])"
proof -
  let ?s = "''https://shop.example.com/''"
  let ?st1 = "batch_body shop_world ''shop.example.com'' (initial_stateB ?s)"
  have c0: "continuesB 2 (initial_stateB ?s)"
    by (simp add: continuesB_def initial_stateB_def)
  have c1: "\<not> continuesB 2 ?st1"
    unfolding shop_first_batch by (simp add: continuesB_def)
  have "batch_loop shop_world ''shop.example.com'' 2 (initial_stateB ?s)
        = batch_loop shop_world ''shop.example.com'' 2 ?st1"
    using c0 by (subst batch_loop.simps) simp
  also have "\<dots> = ?st1"
    using c1 by (subst batch_loop.simps) simp
  finally have l: "batch_loop shop_world ''shop.example.com'' 2 (initial_stateB ?s) = ?st1" .
  have d: "deduplicateProducts [] = []" by (simp add: deduplicateProducts_def)
  show ?thesis
    unfolding crawlWebsiteB_def
    by (simp add: shop_start_facts l shop_first_batch d shop_world_browser)
qed

text \<open>
  The shop with a start page on which the classifier finds links of all four kinds,
  one of them under two kinds.
\<close>

definition catalogue_world :: world where
  "catalogue_world =
     shop_world\<lparr>model := (\<lambda>u html links.
        if u = ''https://shop.example.com/''
        then Json \<lparr> pageType = ''listing'', product = None,
                    productLinks = Some [''/p/1''],
                    paginationLinks = Some [''/shop?page=2''],
                    categoryLinks = Some [''/c/toys''],
                    otherRelevantLinks = Some [''/about'', ''/p/1''] \<rparr>
        else Json \<lparr> pageType = ''other'', product = None, productLinks = None,
                    paginationLinks = None, categoryLinks = None,
                    otherRelevantLinks = None \<rparr>)\<rparr>"

lemma catalogue_start_page:
  "fetchPage catalogue_world ''https://shop.example.com/''
     = Inr (Some (''<html></html>'', [], ''https://shop.example.com/''))"
  by code_simp

lemma catalogue_first_batch:
  "pendingB (batch_body catalogue_world ''shop.example.com''
               (initial_stateB ''https://shop.example.com/'')) =
     [\<lparr>url = ''https://shop.example.com/p/1'', priority = 3\<rparr>,
      \<lparr>url = ''https://shop.example.com/shop?page=2'', priority = 2\<rparr>,
      \<lparr>url = ''https://shop.example.com/c/toys'', priority = 2\<rparr>,
      \<lparr>url = ''https://shop.example.com/about'', priority = 1\<rparr>]"
  by code_simp

section \<open>Properties\<close>

lemma isValidUrl_normalizeUrl:
  "isValidUrl s \<Longrightarrow> \<exists>n. normalizeUrl s = Inr n"
  by (auto simp: isValidUrl_def normalizeUrl_def Let_def split: option.splits)

subsection \<open>Invalid start URL\<close>

text \<open>
  Claim C2. For a start URL that does not parse, \<^verbatim>\<open>crawlWebsite\<close> returns exactly the
  result with no products, no visited URLs and the error \<^verbatim>\<open>Invalid start URL\<close>, and makes
  no renderer and no classifier call.
\<close>

theorem invalid_start_url:
  assumes "\<not> isValidUrl startUrl"
  shows "crawlWebsite w startUrl maxPages =
           (Inr \<lparr>products = [], visitedUrls = [], error = Some ''Invalid start URL''\<rparr>, [])"
  using assms by (simp add: crawlWebsite_def)

theorem invalid_start_url_witness:
  "\<not> isValidUrl ''not a url'' \<and>
   crawlWebsite shop_world ''not a url'' 10 =
     (Inr \<lparr>products = [], visitedUrls = [], error = Some ''Invalid start URL''\<rparr>, [])"
proof -
  have h: "\<not> isValidUrl ''not a url''" by code_simp
  show ?thesis using h invalid_start_url[OF h, of shop_world 10] by simp
qed

subsection \<open>Failure to start the browser\<close>

text \<open>
  Claim C3 says that a failure to start the browser comes back as a result with its
  error field set. The run is wrapped in \<^verbatim>\<open>try\<close> ... \<^verbatim>\<open>finally\<close> without a \<^verbatim>\<open>catch\<close>, so
  the exception leaves \<^verbatim>\<open>crawlWebsite\<close>: where the browser cannot be launched the
  promise is rejected and there is no result.
\<close>

theorem browser_failure_counterexample:
  "crawlWebsite no_browser_world ''https://shop.example.com/'' 10 =
     (Inl (Error ''Failed to launch the browser process''), [])"
  by code_simp

text \<open>
  Claim C3, amended. For a valid start URL, when \<^verbatim>\<open>initBrowser\<close> throws, \<^verbatim>\<open>crawlWebsite\<close>
  returns no result: it is rejected with the error of the launch, or, when a page could
  not be opened after the launch, with that error or the one thrown while closing the
  browser. No renderer or classifier call is made.
\<close>

theorem browser_failure_propagates:
  assumes "isValidUrl startUrl"
  shows "(initBrowser_outcome w = LaunchThrows e \<longrightarrow>
            crawlWebsite w startUrl maxPages = (Inl e, []))
       \<and> (initBrowser_outcome w = NewPageThrows e \<longrightarrow>
            crawlWebsite w startUrl maxPages =
              (Inl (case close_outcome w of None \<Rightarrow> e | Some e' \<Rightarrow> e'), []))"
proof -
  obtain n where n: "normalizeUrl startUrl = Inr n"
    using isValidUrl_normalizeUrl[OF assms] by blast
  show ?thesis using assms n by (simp add: crawlWebsite_def split: option.splits)
qed

theorem browser_failure_propagates_witness:
  "isValidUrl ''https://shop.example.com/'' \<and>
   initBrowser_outcome no_browser_world = LaunchThrows (Error ''Failed to launch the browser process'') \<and>
   crawlWebsite no_browser_world ''https://shop.example.com/'' 10 =
     (Inl (Error ''Failed to launch the browser process''), [])"
proof -
  have h: "isValidUrl ''https://shop.example.com/''" by code_simp
  have i: "initBrowser_outcome no_browser_world = LaunchThrows (Error ''Failed to launch the browser process'')"
    by (simp add: no_browser_world_def)
  show ?thesis
    using h i browser_failure_propagates[OF h, of no_browser_world "Error ''Failed to launch the browser process''" 10]
    by simp
qed

subsection \<open>The page budget\<close>




subsection \<open>The frontier\<close>

text \<open>
  Claim C4. At every point of a run, in both versions of the crawler, the queue of
  pending URLs holds no URL twice, every queued URL is in the visited set, the visited
  set after an iteration extends the one before it, and queueing a URL that is in the
  visited set changes nothing.
\<close>

theorem frontier_discipline:
  "distinct (pending (crawl_after w b n m k (initial_state n)))
   \<and> set (pending (crawl_after w b n m k (initial_state n)))
        \<subseteq> set (visited (crawl_after w b n m k (initial_state n)))
   \<and> prefix (visited (crawl_after w b n m k (initial_state n)))
            (visited (crawl_after w b n m (Suc k) (initial_state n)))
   \<and> (link \<in> set (visited st) \<longrightarrow> enqueue link st = st)
   \<and> distinct (map url (pendingB (batch_after w b m k (initial_stateB n))))
   \<and> set (map url (pendingB (batch_after w b m k (initial_stateB n))))
        \<subseteq> set (visitedB (batch_after w b m k (initial_stateB n)))
   \<and> prefix (visitedB (batch_after w b m k (initial_stateB n)))
            (visitedB (batch_after w b m (Suc k) (initial_stateB n)))
   \<and> (url newUrl \<in> set (visitedB stB) \<longrightarrow> enqueueB newUrl stB = stB)"
proof -
  have s: "frontier_inv (crawl_after w b n m k (initial_state n))"
    by (rule crawl_after_inv[OF initial_state_inv])
  have t: "frontier_invB (batch_after w b m k (initial_stateB n))"
    by (rule batch_after_inv[OF initial_stateB_inv])
  have e: "link \<in> set (visited st) \<longrightarrow> enqueue link st = st"
    by (simp add: enqueue_def)
  have eB: "url newUrl \<in> set (visitedB stB) \<longrightarrow> enqueueB newUrl stB = stB"
    by (simp add: enqueueB_def)
  from s have s1: "distinct (pending (crawl_after w b n m k (initial_state n)))"
    and s2: "set (pending (crawl_after w b n m k (initial_state n)))
        \<subseteq> set (visited (crawl_after w b n m k (initial_state n)))"
    by (simp_all add: frontier_inv_def)
  from t have t1: "distinct (map url (pendingB (batch_after w b m k (initial_stateB n))))"
    and t2: "set (map url (pendingB (batch_after w b m k (initial_stateB n))))
        \<subseteq> set (visitedB (batch_after w b m k (initial_stateB n)))"
    by (simp_all add: frontier_invB_def)
  show ?thesis
    using s1 s2 t1 t2 e eB crawl_after_prefix[of w b n m k "initial_state n"]
      batch_after_prefix[of w b m k "initial_stateB n"]
    by blast
qed


theorem frontier_discipline_witness:
  "''https://shop.example.com/p/1'' \<in> set (visited shop_state1)
   \<and> enqueue ''https://shop.example.com/p/1'' shop_state1 = shop_state1
   \<and> url \<lparr>url = ''https://shop.example.com/'', priority = 3\<rparr>
        \<in> set (visitedB (initial_stateB ''https://shop.example.com/''))
   \<and> enqueueB \<lparr>url = ''https://shop.example.com/'', priority = 3\<rparr>
         (initial_stateB ''https://shop.example.com/'')
       = initial_stateB ''https://shop.example.com/''
   \<and> distinct (map url (pendingB (batch_after shop_world ''shop.example.com'' 10 1
                                 (initial_stateB ''https://shop.example.com/''))))"
proof -
  have a: "''https://shop.example.com/p/1'' \<in> set (visited shop_state1)"
    by (simp add: shop_state1_def)
  have b: "url \<lparr>url = ''https://shop.example.com/'', priority = 3\<rparr>
        \<in> set (visitedB (initial_stateB ''https://shop.example.com/''))"
    by (simp add: initial_stateB_def)
  show ?thesis
    using a b
      frontier_discipline[of shop_world "''shop.example.com''" "''https://shop.example.com/''" 10 1
        "''https://shop.example.com/p/1''" shop_state1
        "\<lparr>url = ''https://shop.example.com/'', priority = 3\<rparr>"
        "initial_stateB ''https://shop.example.com/''"]
    by simp
qed

subsection \<open>One product per URL\<close>



subsection \<open>The gate before a fetch\<close>

text \<open>
  Claim C10. A URL taken from the queue that is not the normalized start URL and that
  \<^verbatim>\<open>isLikelyProductOrListingUrl\<close> does not take for a product or listing URL is
  skipped: the iteration only removes it from the queue, without a renderer or
  classifier call. It stays in the visited set, where every queued URL of a run is. The
  start URL is not subject to this gate: unless it is a resource URL it is fetched. So
  every renderer and classifier call of a run is for the start URL or for a likely URL.
\<close>

theorem unlikely_url_skipped:
  assumes "pending st = currentUrl # rest"
    and "currentUrl \<noteq> normalizedStartUrl"
    and "\<not> isLikely (isLikelyProductOrListingUrl currentUrl)"
  shows "crawl_body w b normalizedStartUrl st = st\<lparr>pending := rest\<rparr>
       \<and> set (pending (crawl_after w' b' n' m k (initial_state n')))
            \<subseteq> set (visited (crawl_after w' b' n' m k (initial_state n')))
       \<and> (pending st' = n' # rest' \<and> n' \<noteq> [] \<and> \<not> isResourceUrl n' \<longrightarrow>
            (\<exists>cs'. calls (crawl_body w' b' n' st') = calls st' @ Fetch n' # cs'))
       \<and> (crawlWebsite w' startUrl m = (res, cs) \<and> normalizeUrl startUrl = Inr n' \<longrightarrow>
            list_all (\<lambda>c. passes_gate n' (call_url c)) cs)"
proof -
  have 1: "crawl_body w b normalizedStartUrl st = st\<lparr>pending := rest\<rparr>"
    using assms by (simp add: crawl_body_def Let_def)
  have 2: "set (pending (crawl_after w' b' n' m k (initial_state n')))
            \<subseteq> set (visited (crawl_after w' b' n' m k (initial_state n')))"
    using crawl_after_inv[OF initial_state_inv, of w' b' n' m k n']
    by (simp add: frontier_inv_def)
  have 3: "pending st' = n' # rest' \<and> n' \<noteq> [] \<and> \<not> isResourceUrl n' \<longrightarrow>
            (\<exists>cs'. calls (crawl_body w' b' n' st') = calls st' @ Fetch n' # cs')"
  proof
    assume a: "pending st' = n' # rest' \<and> n' \<noteq> [] \<and> \<not> isResourceUrl n'"
    then have "crawl_body w' b' n' st' = process_page w' b' n' (st'\<lparr>pending := rest'\<rparr>)"
      by (simp add: crawl_body_def Let_def)
    then show "\<exists>cs'. calls (crawl_body w' b' n' st') = calls st' @ Fetch n' # cs'"
      using process_page_calls[of w' b' n' "st'\<lparr>pending := rest'\<rparr>"] by auto
  qed
  have 4: "crawlWebsite w' startUrl m = (res, cs) \<and> normalizeUrl startUrl = Inr n' \<longrightarrow>
            list_all (\<lambda>c. passes_gate n' (call_url c)) cs"
  proof
    assume a: "crawlWebsite w' startUrl m = (res, cs) \<and> normalizeUrl startUrl = Inr n'"
    have g0: "gate_inv n' (initial_state n')"
      by (simp add: gate_inv_def initial_state_def)
    have g: "gate_inv n' (crawl_loop w' (getBaseDomain startUrl) n' m (initial_state n'))"
      using crawl_loop_invariant[of "gate_inv n'" "initial_state n'" m w'
          "getBaseDomain startUrl" n'] g0 crawl_body_gate
      by blast
    have "cs = [] \<or> cs = calls (crawl_loop w' (getBaseDomain startUrl) n' m (initial_state n'))"
      using a by (auto simp: crawlWebsite_def Let_def
                       split: if_splits init.splits option.splits)
    then show "list_all (\<lambda>c. passes_gate n' (call_url c)) cs"
      using g by (auto simp: gate_inv_def)
  qed
  show ?thesis using 1 2 3 4 by blast
qed

theorem unlikely_url_skipped_witness:
  "pending shop_state2 = ''https://shop.example.com/about'' # []
   \<and> ''https://shop.example.com/about'' \<noteq> ''https://shop.example.com/''
   \<and> \<not> isLikely (isLikelyProductOrListingUrl ''https://shop.example.com/about'')
   \<and> crawl_body shop_world ''shop.example.com'' ''https://shop.example.com/'' shop_state2
       = shop_state2\<lparr>pending := []\<rparr>
   \<and> ''https://shop.example.com/about'' \<in> set (visited shop_state2)"
proof -
  have p: "pending shop_state2 = ''https://shop.example.com/about'' # []"
    by (simp add: shop_state2_def)
  have n: "''https://shop.example.com/about'' \<noteq> ''https://shop.example.com/''"
    by simp
  have v: "''https://shop.example.com/about'' \<in> set (visited shop_state2)"
    by (simp add: shop_state2_def)
  show ?thesis
    using p n v about_not_likely(1)
      unlikely_url_skipped[OF p n about_not_likely(1), of shop_world "''shop.example.com''"]
    by blast
qed

subsection \<open>Priorities\<close>

text \<open>
  Claim C9, for the batched crawler. The start URL is queued with priority 1. The
  entries that \<^verbatim>\<open>processNewUrls\<close> makes from the classified links of a page carry
  priority 3 for product links, 2 for pagination and category links and 1 for other
  relevant links. Every iteration sorts the queue by descending priority and takes the
  first \<open>BATCH_SIZE\<close> entries: no entry left in the queue has a higher priority than
  an entry of the batch, the renderer is called for the URLs of the batch in that order
  (but for resource URLs), and the rest of the sorted queue, followed by the new entries,
  is the next queue. Every new entry of the queue is, unchanged, an entry that
  \<^verbatim>\<open>processNewUrls\<close> made for a page of the batch from the analysis of that page (the
  cached one, or else the classifier's). For one page with a URL that parses, the new
  entries are entries of \<^verbatim>\<open>processNewUrls\<close>, and every entry of \<^verbatim>\<open>processNewUrls\<close> has its
  URL queued with its priority or a higher one: a link is queued with the priority of
  the first kind under which the classifier lists it.
\<close>

theorem priorities_and_order:
  "pendingB (initial_stateB n) = [\<lparr>url = n, priority = 1\<rparr>]
   \<and> (e \<in> set (processNewUrls ls bu bd vs pa) \<longleftrightarrow>
        (\<exists>l nl p. resolve_normalized l bu = Some nl \<and> getBaseDomain nl = bd \<and> nl \<notin> set vs
           \<and> e = \<lparr>url = nl, priority = p\<rparr>
           \<and> (p = 3 \<and> l \<in> set (links_or_empty (productLinks pa))
              \<or> p = 2 \<and> l \<in> set (links_or_empty (paginationLinks pa)
                                     @ links_or_empty (categoryLinks pa))
              \<or> p = 1 \<and> l \<in> set (links_or_empty (otherRelevantLinks pa)))))
   \<and> sorted_wrt (\<lambda>x y. priority y \<le> priority x) (sort_by_priority q)
   \<and> mset (sort_by_priority q) = mset q
   \<and> (a \<in> set (take BATCH_SIZE (sort_by_priority q))
        \<and> r \<in> set (drop BATCH_SIZE (sort_by_priority q)) \<longrightarrow> priority r \<le> priority a)
   \<and> (\<exists>new. pendingB (batch_body w b st)
               = drop BATCH_SIZE (sort_by_priority (pendingB st)) @ new
             \<and> (\<forall>x \<in> set new.
                  \<exists>page \<in> set (map url (take BATCH_SIZE (sort_by_priority (pendingB st)))).
                  \<exists>html links baseUrl visitedUrls'.
                    fetchPage w page = Inr (Some (html, links, baseUrl))
                    \<and> x \<in> set (processNewUrls links baseUrl b visitedUrls'
                                  (fst (cached_analysis w page html links st)))))
   \<and> (isValidUrl u \<longrightarrow>
        (\<exists>new. pendingB (integrateB b bu u ls pa st) = pendingB st @ new
              \<and> set new \<subseteq> set (processNewUrls ls bu b (visitedB st) pa)
              \<and> (\<forall>x \<in> set (processNewUrls ls bu b (visitedB st) pa).
                   \<exists>y \<in> set new. url y = url x \<and> priority x \<le> priority y)))
   \<and> (\<exists>as. callsB (batch_body w b st) =
              callsB st
              @ map Fetch (filter (\<lambda>u. \<not> isResourceUrl u)
                             (map url (take BATCH_SIZE (sort_by_priority (pendingB st)))))
              @ as
            \<and> list_all (\<lambda>c. \<not> is_fetch c) as)"
proof -
  have 1: "pendingB (initial_stateB n) = [\<lparr>url = n, priority = 1\<rparr>]"
    by (simp add: initial_stateB_def)
  have 3: "sorted_wrt (\<lambda>x y. priority y \<le> priority x) (sort_by_priority q)"
    using sort_by_priority_descending[of q] by (simp add: sorted_map)
  have 4: "mset (sort_by_priority q) = mset q"
    by (simp add: sort_by_priority_def)
  have 5: "a \<in> set (take BATCH_SIZE (sort_by_priority q))
        \<and> r \<in> set (drop BATCH_SIZE (sort_by_priority q)) \<longrightarrow> priority r \<le> priority a"
    using batch_before_rest[of a BATCH_SIZE q r] by blast
  have 6: "\<exists>new. pendingB (batch_body w b st)
               = drop BATCH_SIZE (sort_by_priority (pendingB st)) @ new
             \<and> (\<forall>x \<in> set new.
                  \<exists>page \<in> set (map url (take BATCH_SIZE (sort_by_priority (pendingB st)))).
                  \<exists>html links baseUrl visitedUrls'.
                    fetchPage w page = Inr (Some (html, links, baseUrl))
                    \<and> x \<in> set (processNewUrls links baseUrl b visitedUrls'
                                  (fst (cached_analysis w page html links st))))"
    using batch_body_new[of w b st] unfolding entry_of_page_def by blast
  have 7: "\<exists>new. pendingB (integrateB b bu u ls pa st) = pendingB st @ new
              \<and> set new \<subseteq> set (processNewUrls ls bu b (visitedB st) pa)
              \<and> (\<forall>x \<in> set (processNewUrls ls bu b (visitedB st) pa).
                   \<exists>y \<in> set new. url y = url x \<and> priority x \<le> priority y)"
    if v: "isValidUrl u"
  proof -
    let ?es = "processNewUrls ls bu b (visitedB st) pa"
    have "\<forall>x \<in> set ?es. url x \<notin> set (visitedB st)"
      by (auto simp: processNewUrls_entry)
    then have "\<forall>x \<in> set ?es. \<exists>y \<in> set (queued_of (visitedB st) ?es).
                 url y = url x \<and> priority x \<le> priority y"
      using queued_of_first[OF processNewUrls_sorted[of ls bu b "visitedB st" pa]] by blast
    then show ?thesis
      using integrateB_queue[OF v, of b bu ls pa st] queued_of_subset[of "visitedB st" ?es]
      by blast
  qed
  have c7: "isValidUrl u \<longrightarrow>
        (\<exists>new. pendingB (integrateB b bu u ls pa st) = pendingB st @ new
              \<and> set new \<subseteq> set (processNewUrls ls bu b (visitedB st) pa)
              \<and> (\<forall>x \<in> set (processNewUrls ls bu b (visitedB st) pa).
                   \<exists>y \<in> set new. url y = url x \<and> priority x \<le> priority y))"
    by (rule impI) (rule 7)
  note c2 = processNewUrls_entry[of e ls bu bd vs pa]
  note c8 = batch_body_calls[of w b st]
  from 1 c2 3 4 5 6 c7 c8 show ?thesis by (intro conjI)
qed

definition shop_queue :: "PendingUrl list" where
  "shop_queue =
     [\<lparr>url = ''https://shop.example.com/about'', priority = 1\<rparr>,
      \<lparr>url = ''https://shop.example.com/p/1'', priority = 3\<rparr>,
      \<lparr>url = ''https://shop.example.com/shop?page=2'', priority = 2\<rparr>,
      \<lparr>url = ''https://shop.example.com/p/2'', priority = 3\<rparr>,
      \<lparr>url = ''https://shop.example.com/contact'', priority = 1\<rparr>,
      \<lparr>url = ''https://shop.example.com/c/toys'', priority = 2\<rparr>]"

lemma shop_queue_sorted:
  "sort_by_priority shop_queue =
     [\<lparr>url = ''https://shop.example.com/p/1'', priority = 3\<rparr>,
      \<lparr>url = ''https://shop.example.com/p/2'', priority = 3\<rparr>,
      \<lparr>url = ''https://shop.example.com/shop?page=2'', priority = 2\<rparr>,
      \<lparr>url = ''https://shop.example.com/c/toys'', priority = 2\<rparr>,
      \<lparr>url = ''https://shop.example.com/about'', priority = 1\<rparr>,
      \<lparr>url = ''https://shop.example.com/contact'', priority = 1\<rparr>]"
  by (simp add: sort_by_priority_def shop_queue_def)

theorem priorities_and_order_witness:
  "\<lparr>url = ''https://shop.example.com/p/2'', priority = 3\<rparr>
      \<in> set (take BATCH_SIZE (sort_by_priority shop_queue))
   \<and> \<lparr>url = ''https://shop.example.com/contact'', priority = 1\<rparr>
      \<in> set (drop BATCH_SIZE (sort_by_priority shop_queue))
   \<and> priority \<lparr>url = ''https://shop.example.com/contact'', priority = 1\<rparr>
      \<le> priority \<lparr>url = ''https://shop.example.com/p/2'', priority = 3\<rparr>
   \<and> pendingB (batch_body catalogue_world ''shop.example.com''
                  (initial_stateB ''https://shop.example.com/'')) =
        [\<lparr>url = ''https://shop.example.com/p/1'', priority = 3\<rparr>,
         \<lparr>url = ''https://shop.example.com/shop?page=2'', priority = 2\<rparr>,
         \<lparr>url = ''https://shop.example.com/c/toys'', priority = 2\<rparr>,
         \<lparr>url = ''https://shop.example.com/about'', priority = 1\<rparr>]
   \<and> (\<exists>visitedUrls'.
         \<lparr>url = ''https://shop.example.com/c/toys'', priority = 2\<rparr>
           \<in> set (processNewUrls [] ''https://shop.example.com/'' ''shop.example.com''
                    visitedUrls'
                    (analyzePageWithGemini catalogue_world ''<html></html>''
                       ''https://shop.example.com/'' [])))"
proof -
  let ?s = "''https://shop.example.com/''"
  let ?toys = "\<lparr>url = ''https://shop.example.com/c/toys'', priority = 2\<rparr>"
  have a: "\<lparr>url = ''https://shop.example.com/p/2'', priority = 3\<rparr>
      \<in> set (take BATCH_SIZE (sort_by_priority shop_queue))"
    by (simp add: shop_queue_sorted BATCH_SIZE_def)
  have r: "\<lparr>url = ''https://shop.example.com/contact'', priority = 1\<rparr>
      \<in> set (drop BATCH_SIZE (sort_by_priority shop_queue))"
    by (simp add: shop_queue_sorted BATCH_SIZE_def)
  note t = priorities_and_order[where q = shop_queue
        and a = "\<lparr>url = ''https://shop.example.com/p/2'', priority = 3\<rparr>"
        and r = "\<lparr>url = ''https://shop.example.com/contact'', priority = 1\<rparr>"
        and w = catalogue_world and b = "''shop.example.com''"
        and st = "initial_stateB ?s"]
  note t5 = t[THEN conjunct2, THEN conjunct2, THEN conjunct2, THEN conjunct2, THEN conjunct1]
  note t6 = t[THEN conjunct2, THEN conjunct2, THEN conjunct2, THEN conjunct2, THEN conjunct2,
              THEN conjunct1]
  have 1: "priority \<lparr>url = ''https://shop.example.com/contact'', priority = 1\<rparr>
      \<le> priority \<lparr>url = ''https://shop.example.com/p/2'', priority = 3\<rparr>"
    using t5 a r by blast
  have q: "sort_by_priority (pendingB (initial_stateB ?s)) = [\<lparr>url = ?s, priority = 1\<rparr>]"
    by (simp add: initial_stateB_def sort_by_priority_def)
  from t6 obtain new where
    n: "pendingB (batch_body catalogue_world ''shop.example.com'' (initial_stateB ?s))
          = drop BATCH_SIZE (sort_by_priority (pendingB (initial_stateB ?s))) @ new"
    and f: "\<forall>x \<in> set new.
              \<exists>page \<in> set (map url (take BATCH_SIZE
                               (sort_by_priority (pendingB (initial_stateB ?s))))).
              \<exists>html links baseUrl visitedUrls'.
                fetchPage catalogue_world page = Inr (Some (html, links, baseUrl))
                \<and> x \<in> set (processNewUrls links baseUrl ''shop.example.com'' visitedUrls'
                              (fst (cached_analysis catalogue_world page html links
                                      (initial_stateB ?s))))"
    by blast
  have "new = [\<lparr>url = ''https://shop.example.com/p/1'', priority = 3\<rparr>,
               \<lparr>url = ''https://shop.example.com/shop?page=2'', priority = 2\<rparr>,
               ?toys,
               \<lparr>url = ''https://shop.example.com/about'', priority = 1\<rparr>]"
    using n unfolding catalogue_first_batch q by (simp add: BATCH_SIZE_def)
  then have "?toys \<in> set new" by simp
  then obtain page html links baseUrl visitedUrls' where
    p: "page \<in> set (map url (take BATCH_SIZE (sort_by_priority (pendingB (initial_stateB ?s)))))"
       "fetchPage catalogue_world page = Inr (Some (html, links, baseUrl))"
       "?toys \<in> set (processNewUrls links baseUrl ''shop.example.com'' visitedUrls'
                       (fst (cached_analysis catalogue_world page html links
                               (initial_stateB ?s))))"
    using f by blast
  have page: "page = ?s" using p(1) unfolding q by (simp add: BATCH_SIZE_def)
  have h: "html = ''<html></html>''" "links = []" "baseUrl = ?s"
    using p(2) unfolding page catalogue_start_page by simp_all
  have c: "fst (cached_analysis catalogue_world ?s ''<html></html>'' [] (initial_stateB ?s))
           = analyzePageWithGemini catalogue_world ''<html></html>'' ?s []"
    by (simp add: cached_analysis_def initial_stateB_def Let_def)
  have 2: "\<exists>visitedUrls'.
         ?toys \<in> set (processNewUrls [] ?s ''shop.example.com'' visitedUrls'
                    (analyzePageWithGemini catalogue_world ''<html></html>'' ?s []))"
    using p(3) unfolding page h c by blast
  show ?thesis
    using a r 1 2 catalogue_first_batch by simp
qed


subsection \<open>Idempotence of the normalization\<close>




subsection \<open>URLs with the same key\<close>









subsection \<open>The domain of the start URL\<close>

text \<open>
  Claim C8. In both versions of the crawler, every URL that a run hands to the
  renderer or to the classifier, and every URL in the visited set of its result, has
  the host name of the start URL: \<open>isSameDomain\<close> holds for the start URL and the URL.
  So a link to another host that the classifier reports is not visited.
\<close>

theorem same_domain_only:
  "(\<forall>c \<in> set (snd (crawlWebsite w startUrl maxPages)). isSameDomain startUrl (call_url c))
   \<and> (\<forall>r. fst (crawlWebsite w startUrl maxPages) = Inr r
          \<longrightarrow> (\<forall>u \<in> set (visitedUrls r). isSameDomain startUrl u))
   \<and> (\<forall>c \<in> set (snd (crawlWebsiteB w startUrl maxPages)). isSameDomain startUrl (call_url c))
   \<and> (\<forall>r. fst (crawlWebsiteB w startUrl maxPages) = Inr r
          \<longrightarrow> (\<forall>u \<in> set (visitedUrls r). isSameDomain startUrl u))"
proof -
  have "\<forall>c \<in> set (snd (crawlWebsite w startUrl maxPages)). isSameDomain startUrl (call_url c)"
    using crawlWebsite_domain(1)[of startUrl w maxPages] by (simp add: list_all_iff)
  moreover have "\<forall>u \<in> set (visitedUrls r). isSameDomain startUrl u"
    if "fst (crawlWebsite w startUrl maxPages) = Inr r" for r
    using crawlWebsite_domain(2)[OF that] by (simp add: list_all_iff)
  moreover have "\<forall>c \<in> set (snd (crawlWebsiteB w startUrl maxPages)). isSameDomain startUrl (call_url c)"
    using crawlWebsiteB_domain(1)[of startUrl w maxPages] by (simp add: list_all_iff)
  moreover have "\<forall>u \<in> set (visitedUrls r). isSameDomain startUrl u"
    if "fst (crawlWebsiteB w startUrl maxPages) = Inr r" for r
    using crawlWebsiteB_domain(2)[OF that] by (simp add: list_all_iff)
  ultimately show ?thesis by blast
qed

text \<open>
  In the small shop the classifier reports \<^verbatim>\<open>https://other.example.com/p/9\<close> on the start
  page: the product page of the shop is rendered, the page of the other host is not.
\<close>

theorem same_domain_only_witness:
  "Fetch ''https://shop.example.com/p/1''
     \<in> set (snd (crawlWebsite shop_world ''https://shop.example.com/'' 10))
   \<and> isSameDomain ''https://shop.example.com/'' ''https://shop.example.com/p/1''
   \<and> \<not> isSameDomain ''https://shop.example.com/'' ''https://other.example.com/p/9''
   \<and> Fetch ''https://other.example.com/p/9''
        \<notin> set (snd (crawlWebsite shop_world ''https://shop.example.com/'' 10))
   \<and> (case fst (crawlWebsite shop_world ''https://shop.example.com/'' 10) of
         Inl e \<Rightarrow> False
       | Inr r \<Rightarrow> ''https://shop.example.com/p/1'' \<in> set (visitedUrls r)
                  \<and> ''https://other.example.com/p/9'' \<notin> set (visitedUrls r))
   \<and> Fetch ''https://shop.example.com/''
        \<in> set (snd (crawlWebsiteB shop_world ''https://shop.example.com/'' 2))
   \<and> Fetch ''https://other.example.com/p/9''
        \<notin> set (snd (crawlWebsiteB shop_world ''https://shop.example.com/'' 2))
   \<and> (case fst (crawlWebsiteB shop_world ''https://shop.example.com/'' 2) of
         Inl e \<Rightarrow> False
       | Inr r \<Rightarrow> ''https://shop.example.com/p/1'' \<in> set (visitedUrls r)
                  \<and> ''https://other.example.com/p/9'' \<notin> set (visitedUrls r))"
proof -
  let ?s = "''https://shop.example.com/''"
  let ?off = "''https://other.example.com/p/9''"
  have off: "\<not> isSameDomain ?s ?off" by code_simp
  note a = same_domain_only[of shop_world ?s 10]
  note b = same_domain_only[of shop_world ?s 2]
  have 1: "Fetch ''https://shop.example.com/p/1'' \<in> set (snd (crawlWebsite shop_world ?s 10))"
    by (simp add: shop_run_10)
  have "isSameDomain ?s (call_url (Fetch ''https://shop.example.com/p/1''))"
    using a 1 by blast
  then have 2: "isSameDomain ?s ''https://shop.example.com/p/1''"
    by (simp add: call_url_def)
  have "\<not> isSameDomain ?s (call_url (Fetch ?off))"
    using off by (simp add: call_url_def)
  then have 3: "Fetch ?off \<notin> set (snd (crawlWebsite shop_world ?s 10))"
    and 4: "Fetch ?off \<notin> set (snd (crawlWebsiteB shop_world ?s 2))"
    using a b by blast+
  obtain r where r: "fst (crawlWebsite shop_world ?s 10) = Inr r"
    "''https://shop.example.com/p/1'' \<in> set (visitedUrls r)"
    by (simp add: shop_run_10)
  have 5: "?off \<notin> set (visitedUrls r)" using a r(1) off by blast
  obtain r' where r': "fst (crawlWebsiteB shop_world ?s 2) = Inr r'"
    "''https://shop.example.com/p/1'' \<in> set (visitedUrls r')"
    by (simp add: shop_batch_run_2)
  have 6: "?off \<notin> set (visitedUrls r')" using b r'(1) off by blast
  have 7: "Fetch ?s \<in> set (snd (crawlWebsiteB shop_world ?s 2))"
    by (simp add: shop_batch_run_2)
  show ?thesis
    using 1 2 off 3 4 5 6 7 r r' by simp
qed

end
